theory Spec2Isabelle
  imports Complex_Main "HOL-Library.Word" "HOL-Library.Multiset"
begin

section \<open>Data model\<close>

text \<open>
  The pixel bytes of an \<open>ImageData\<close> live in a \<open>Uint8ClampedArray\<close>. Two image objects
  never share their array unless they are the same object, and the permutation writes
  into one array while it reads another, so arrays are kept in an explicit store:
  an address is a position in the list of all arrays allocated so far.
\<close>

type_synonym byte = "8 word"
type_synonym typed_array = "byte list"
type_synonym addr = nat
type_synonym store = "typed_array list"

text \<open>\<open>interface ImageData { width; height; data }\<close>: \<open>data\<close> is a reference.\<close>

record ImageData =
  width :: nat
  height :: nat
  data :: addr

text \<open>
  \<open>interface PixelSection\<close> of \<open>lib/supabase.ts\<close>. The numbers of a section come from
  \<open>parseInt\<close>, so they are integers; they may be zero or negative.
\<close>

record PixelSection =
  section_id :: string
  section_name :: string
  section_size :: int
  section_pattern :: "int list"
  created_at :: string

datatype js_error = TypeError | IndexSizeError

text \<open>How a block of statements ends: normally, or by a thrown exception; the store
  as it is at that moment comes with both.\<close>

datatype completion = Normal store | Throw js_error store

text \<open>The value of \<open>Math.floor(width / sectionSize)\<close>: division by zero gives
  \<open>Infinity\<close> (the width is at least 1 where the quotient is computed).\<close>

datatype jsnum = Finite int | Infinity

section \<open>Typed arrays\<close>

text \<open>Reading past the end of a typed array gives \<open>undefined\<close> (\<open>None\<close>); writing past
  the end does nothing; writing \<open>undefined\<close> stores 0.\<close>

definition ta_get :: "typed_array \<Rightarrow> nat \<Rightarrow> byte option" where
  "ta_get a i = (if i < length a then Some (a ! i) else None)"

definition ta_set :: "typed_array \<Rightarrow> nat \<Rightarrow> byte option \<Rightarrow> typed_array" where
  "ta_set a i v =
     (if i < length a then a[i := (case v of Some b \<Rightarrow> b | None \<Rightarrow> 0)] else a)"

definition rd :: "store \<Rightarrow> addr \<Rightarrow> nat \<Rightarrow> byte option" where
  "rd h p i = (if p < length h then ta_get (h ! p) i else None)"

definition wr :: "store \<Rightarrow> addr \<Rightarrow> nat \<Rightarrow> byte option \<Rightarrow> store" where
  "wr h p i v = (if p < length h then h[p := ta_set (h ! p) i v] else h)"

definition array_length :: "store \<Rightarrow> addr \<Rightarrow> nat" where
  "array_length h p = (if p < length h then length (h ! p) else 0)"

section \<open>Numbers\<close>

text \<open>
  The numbers of the program are IEEE 754 doubles. Those that matter here are rationals,
  and an operation of the program gives the double nearest to the exact result, the one
  with the even significand when two are equally near. \<open>round_double\<close> is that rounding to
  53 significant bits. It has no limit on the exponent: it is applied to the integers
  that \<open>parseInt\<close> reads, where the overflow to \<open>Infinity\<close> is tested on its result, and to
  the quotient and the product of line 79, which lie between \<open>1 / width\<close> and 100.
\<close>

text \<open>The number of binary digits of a positive integer.\<close>

function bit_length :: "int \<Rightarrow> nat" where
  "bit_length n = (if n \<le> 0 then 0 else Suc (bit_length (n div 2)))"
  by pat_completeness auto
termination
  by (relation "measure nat") auto

declare bit_length.simps [simp del]

text \<open>The exponent \<open>e\<close> of a positive number \<open>x\<close>: \<open>2\<^sup>e \<le> x < 2\<^sup>e\<^sup>+\<^sup>1\<close>.\<close>

definition binade :: "rat \<Rightarrow> int" where
  "binade x =
     (if 1 \<le> x then int (bit_length \<lfloor>x\<rfloor>) - 1
      else - int (bit_length (\<lceil>1 / x\<rceil> - 1)))"

text \<open>The integer nearest to \<open>t\<close>; of two that are equally near, the even one.\<close>

definition nearest_even :: "rat \<Rightarrow> int" where
  "nearest_even t =
     (let q = \<lfloor>t\<rfloor>; r = t - of_int q
      in if r < 1 / 2 then q else if 1 / 2 < r then q + 1 else if even q then q else q + 1)"

definition round_double :: "rat \<Rightarrow> rat" where
  "round_double x =
     (if x = 0 then 0
      else let a = \<bar>x\<bar>; u = 2 powi (binade a - 52)
           in sgn x * (of_int (nearest_even (a / u)) * u))"

section \<open>processImage\<close>

text \<open>A \<open>for (let x = 0; x < n; x++)\<close> loop whose body may throw is \<open>for_each body [0..<n]\<close>:
  the first exception ends the loop.\<close>

fun for_each :: "(store \<Rightarrow> nat \<Rightarrow> completion) \<Rightarrow> nat list \<Rightarrow> store \<Rightarrow> completion" where
  "for_each body [] h = Normal h"
| "for_each body (x # xs) h =
     (case body h x of
        Normal h' \<Rightarrow> for_each body xs h'
      | Throw e h' \<Rightarrow> Throw e h')"

text \<open>Lines 40-42: \<open>for (let i = 0; i < data.length; i++) newData[i] = data[i]\<close>.\<close>

definition copy_loop :: "store \<Rightarrow> addr \<Rightarrow> addr \<Rightarrow> store" where
  "copy_loop h src newData =
     fold (\<lambda>i h'. wr h' newData i (rd h' src i)) [0..<array_length h src] h"

text \<open>An entry of \<open>originalRowData\<close>: the four channel reads of one pixel.\<close>

type_synonym pixel = "byte option \<times> byte option \<times> byte option \<times> byte option"

definition pixelIndex :: "nat \<Rightarrow> nat \<Rightarrow> nat \<Rightarrow> nat \<Rightarrow> nat" where
  "pixelIndex w y sliceStartX x = ((y * w) + (sliceStartX + x)) * 4"

text \<open>Lines 53-63: the row of the slice is read from the input array.\<close>

definition originalRowData :: "store \<Rightarrow> addr \<Rightarrow> nat \<Rightarrow> nat \<Rightarrow> nat \<Rightarrow> nat \<Rightarrow> pixel list" where
  "originalRowData h src w y sliceStartX sectionSize =
     map (\<lambda>x. let i = pixelIndex w y sliceStartX x
              in (rd h src i, rd h src (i + 1), rd h src (i + 2), rd h src (i + 3)))
         [0..<sectionSize]"

definition write_pixel :: "store \<Rightarrow> addr \<Rightarrow> nat \<Rightarrow> pixel \<Rightarrow> store" where
  "write_pixel h newData t p =
     (case p of (r, g, b, a) \<Rightarrow>
        wr (wr (wr (wr h newData t r) newData (t + 1) g) newData (t + 2) b) newData (t + 3) a)"

text \<open>
  Lines 67-74, the body of the second inner loop. \<open>pattern[x]\<close> past the end of the
  pattern is \<open>undefined\<close>, and \<open>undefined - 1\<close> is \<open>NaN\<close>; \<open>originalRowData[sourceColumn]\<close>
  is \<open>undefined\<close> unless \<open>sourceColumn\<close> is an index of the row, and reading \<open>[0]\<close> of
  \<open>undefined\<close> throws a \<open>TypeError\<close> before anything is written.
\<close>

definition apply_column ::
  "addr \<Rightarrow> nat \<Rightarrow> nat \<Rightarrow> nat \<Rightarrow> int list \<Rightarrow> pixel list \<Rightarrow> store \<Rightarrow> nat \<Rightarrow> completion" where
  "apply_column newData w y sliceStartX pat row h x =
     (case (if x < length pat then Some (pat ! x - 1) else None) of
        None \<Rightarrow> Throw TypeError h
      | Some sourceColumn \<Rightarrow>
          if 0 \<le> sourceColumn \<and> nat sourceColumn < length row
          then Normal (write_pixel h newData (pixelIndex w y sliceStartX x) (row ! nat sourceColumn))
          else Throw TypeError h)"

text \<open>Lines 51-76, the body of the row loop.\<close>

definition process_row ::
  "addr \<Rightarrow> addr \<Rightarrow> nat \<Rightarrow> nat \<Rightarrow> nat \<Rightarrow> int list \<Rightarrow> store \<Rightarrow> nat \<Rightarrow> completion" where
  "process_row src newData w sliceStartX sectionSize pat h y =
     for_each
       (apply_column newData w y sliceStartX pat
          (originalRowData h src w y sliceStartX sectionSize))
       [0..<sectionSize] h"

text \<open>Lines 48-76, one slice: all its rows.\<close>

definition process_slice ::
  "addr \<Rightarrow> addr \<Rightarrow> nat \<Rightarrow> nat \<Rightarrow> nat \<Rightarrow> int list \<Rightarrow> nat \<Rightarrow> store \<Rightarrow> completion" where
  "process_slice src newData w hg sectionSize pat sl h =
     for_each (process_row src newData w (sl * sectionSize) sectionSize pat) [0..<hg] h"

definition numCompleteSlices :: "nat \<Rightarrow> int \<Rightarrow> jsnum" where
  "numCompleteSlices w sectionSize =
     (if sectionSize = 0 then Infinity else Finite (int w div sectionSize))"

fun slice_lt :: "nat \<Rightarrow> jsnum \<Rightarrow> bool" where
  "slice_lt sl (Finite n) = (int sl < n)"
| "slice_lt sl Infinity = True"

text \<open>
  Line 79: \<open>((slice + 1) / numCompleteSlices) * 100\<close>. The division gives a double and
  so does the multiplication; \<open>slice + 1\<close> and the number of slices are integers that a
  double holds exactly.
\<close>

fun progress_value :: "nat \<Rightarrow> jsnum \<Rightarrow> rat" where
  "progress_value sl (Finite n) = round_double (round_double (of_nat (sl + 1) / of_int n) * 100)"
| "progress_value sl Infinity = 0"

text \<open>
  Lines 47-83, the slice loop. Its bound may be \<open>Infinity\<close>, and then it never ends:
  not returning is \<open>None\<close>. The second component is the list of the arguments of
  \<open>setProgress\<close> so far. Inside the loop the section size is not negative, so it is
  passed on as a natural number.
\<close>

partial_function (option) slice_loop ::
  "addr \<Rightarrow> addr \<Rightarrow> nat \<Rightarrow> nat \<Rightarrow> nat \<Rightarrow> int list \<Rightarrow> jsnum \<Rightarrow> nat \<Rightarrow> store \<Rightarrow> rat list
     \<Rightarrow> (completion \<times> rat list) option" where
  "slice_loop src newData w hg sectionSize pat n sl h reported =
     (if slice_lt sl n then
        (case process_slice src newData w hg sectionSize pat sl h of
           Throw e h' \<Rightarrow> Some (Throw e h', reported)
         | Normal h' \<Rightarrow>
             slice_loop src newData w hg sectionSize pat n (sl + 1) h'
               (reported @ [progress_value sl n]))
      else Some (Normal h, reported))"

text \<open>What a call leaves behind: whether \<open>setProcessedImageData\<close> was reached and with
  which image, and every argument of \<open>setProgress\<close> in order.\<close>

datatype outcome = NotStarted | Completed ImageData | Failed js_error

record run =
  outcome :: outcome
  progress_calls :: "rat list"

text \<open>
  \<open>processImage\<close>, lines 21-108. \<open>new ImageData(width, height)\<close> throws when a side is 0;
  otherwise it allocates a zero-filled array of \<open>4 * width * height\<close> bytes. The
  \<open>finally\<close> block resets the progress to 0 on both ways out. The preview on a canvas
  and the toasts that follow \<open>setProcessedImageData\<close> are left out.
\<close>

definition processImage ::
  "store \<Rightarrow> ImageData option \<Rightarrow> PixelSection option \<Rightarrow> (run \<times> store) option" where
  "processImage h originalImageData selectedSection =
     (case (originalImageData, selectedSection) of
        (Some img, Some sec) \<Rightarrow>
          if width img = 0 \<or> height img = 0
          then Some (\<lparr>outcome = Failed IndexSizeError, progress_calls = [0, 0]\<rparr>, h)
          else
            let newImageData = \<lparr>width = width img, height = height img, data = length h\<rparr>;
                h1 = h @ [replicate (4 * width img * height img) 0];
                h2 = copy_loop h1 (data img) (data newImageData)
            in (case slice_loop (data img) (data newImageData) (width img) (height img)
                       (nat (section_size sec)) (section_pattern sec)
                       (numCompleteSlices (width img) (section_size sec)) 0 h2 [0] of
                  None \<Rightarrow> None
                | Some (Normal h', reported) \<Rightarrow>
                    Some (\<lparr>outcome = Completed newImageData, progress_calls = reported @ [0]\<rparr>, h')
                | Some (Throw e h', reported) \<Rightarrow>
                    Some (\<lparr>outcome = Failed e, progress_calls = reported @ [0]\<rparr>, h'))
      | _ \<Rightarrow> Some (\<lparr>outcome = NotStarted, progress_calls = []\<rparr>, h))"

section \<open>Conditions and observations\<close>

text \<open>
  What the browser guarantees of an \<open>ImageData\<close> that \<open>getImageData\<close> returned: both sides
  are at least 1 and the array holds four bytes for every pixel.
\<close>

definition valid_image :: "store \<Rightarrow> ImageData \<Rightarrow> bool" where
  "valid_image h img \<longleftrightarrow>
     1 \<le> width img \<and> 1 \<le> height img \<and> data img < length h \<and>
     length (h ! data img) = 4 * width img * height img"

text \<open>
  The invariant of a pattern definition: \<open>pattern\<close> is a permutation of \<open>1..size\<close>, that
  is, it has \<open>size\<close> entries, all within \<open>[1, size]\<close>, no two of them equal.
\<close>

definition valid_section :: "PixelSection \<Rightarrow> bool" where
  "valid_section sec \<longleftrightarrow>
     1 \<le> section_size sec \<and>
     int (length (section_pattern sec)) = section_size sec \<and>
     list_all (\<lambda>p. 1 \<le> p \<and> p \<le> section_size sec) (section_pattern sec) \<and>
     distinct (section_pattern sec)"

text \<open>The pixel at column \<open>x\<close> of row \<open>y\<close>: the four bytes from offset
  \<open>((y * width) + x) * 4\<close> on, read as the program reads them.\<close>

definition pixel_at :: "store \<Rightarrow> ImageData \<Rightarrow> nat \<Rightarrow> nat \<Rightarrow> pixel" where
  "pixel_at h img x y =
     (let i = pixelIndex (width img) y 0 x
      in (rd h (data img) i, rd h (data img) (i + 1), rd h (data img) (i + 2), rd h (data img) (i + 3)))"

section \<open>The invariant of the loops\<close>

text \<open>The column that the pattern pulls into column \<open>x\<close>: same slice, offset
  \<open>pattern[x mod S] - 1\<close>.\<close>

definition source_column :: "nat \<Rightarrow> int list \<Rightarrow> nat \<Rightarrow> nat" where
  "source_column S pat x = (x div S) * S + nat (pat ! (x mod S) - 1)"

text \<open>
  \<open>gathered D w hg f R cur\<close>: the output array \<open>cur\<close> has the size of the input array \<open>D\<close>;
  the pixels of the region \<open>R\<close> hold the input pixel of column \<open>f x\<close> of their row, all
  other pixels still hold the input pixel of their own position.
\<close>

definition gathered ::
  "typed_array \<Rightarrow> nat \<Rightarrow> nat \<Rightarrow> (nat \<Rightarrow> nat) \<Rightarrow> (nat \<Rightarrow> nat \<Rightarrow> bool) \<Rightarrow> typed_array \<Rightarrow> bool" where
  "gathered D w hg f R cur \<longleftrightarrow>
     length cur = length D \<and>
     (\<forall>x<w. \<forall>y<hg. \<forall>c<4.
        cur ! ((y * w + x) * 4 + c) = D ! ((y * w + (if R x y then f x else x)) * 4 + c))"

text \<open>All that the loops need of a pattern: an entry within \<open>[1, S]\<close> at every offset
  below \<open>S\<close>.\<close>

definition pattern_fits :: "nat \<Rightarrow> int list \<Rightarrow> bool" where
  "pattern_fits S pat \<longleftrightarrow> (\<forall>j<S. j < length pat \<and> 1 \<le> pat ! j \<and> pat ! j \<le> int S)"

section \<open>Notions used to state the claims\<close>

text \<open>The store at the end of a block, however it ended.\<close>

fun final_store :: "completion \<Rightarrow> store" where
  "final_store (Normal h) = h"
| "final_store (Throw e h) = h"

text \<open>\<open>only_new h0 h\<close>: the store \<open>h\<close> is \<open>h0\<close> with one more array; every array of \<open>h0\<close> is
  as it was.\<close>

definition only_new :: "store \<Rightarrow> store \<Rightarrow> bool" where
  "only_new h0 h \<longleftrightarrow> length h = Suc (length h0) \<and> take (length h0) h = h0"

text \<open>
  The inverse permutation of a pattern, in the 1-based convention of patterns: entry \<open>v\<close> of
  the inverse is the place at which the pattern holds \<open>v\<close>. The program has no such function;
  it is the \<open>P\<^sup>-\<^sup>1\<close> of the claim about applying a pattern and then its inverse.
\<close>

fun position :: "int \<Rightarrow> int list \<Rightarrow> nat" where
  "position v [] = 0"
| "position v (x # xs) = (if x = v then 0 else Suc (position v xs))"

definition inverse_pattern :: "int list \<Rightarrow> int list" where
  "inverse_pattern pat = map (\<lambda>v. int (position v pat) + 1) [1..int (length pat)]"

text \<open>The arguments of \<open>setProgress\<close> at line 79 over a whole run of \<open>n\<close> slices.\<close>

definition slice_reports :: "nat \<Rightarrow> rat list" where
  "slice_reports n = map (\<lambda>i. progress_value i (Finite (int n))) [0..<n]"

section \<open>Validation of a new pattern\<close>

text \<open>
  The pattern of the form is an array of strings, one per input field. Characters are
  8-bit here, so of the white space that \<open>parseInt\<close> and \<open>trim\<close> skip only the part below 256
  is present: tab, line feed, vertical tab, form feed, carriage return, space and
  no-break space.
\<close>

definition is_white_space :: "char \<Rightarrow> bool" where
  "is_white_space c \<longleftrightarrow> (of_char c :: nat) \<in> {9, 10, 11, 12, 13, 32, 160}"

text \<open>The value of a character as a digit of radix \<open>R\<close>, if it is one.\<close>

definition digit_of :: "nat \<Rightarrow> char \<Rightarrow> nat option" where
  "digit_of R c =
     (let n = (of_char c :: nat);
          d = (if 48 \<le> n \<and> n \<le> 57 then Some (n - 48)
               else if 97 \<le> n \<and> n \<le> 122 then Some (n - 87)
               else if 65 \<le> n \<and> n \<le> 90 then Some (n - 55)
               else None)
      in case d of Some v \<Rightarrow> if v < R then Some v else None | None \<Rightarrow> None)"

text \<open>What \<open>parseInt\<close> returns: \<open>NaN\<close>, a double that is an integer, or an infinity.\<close>

datatype number = NaN | Number int | PosInfinity | NegInfinity

text \<open>The prefix that makes \<open>parseInt\<close> read hexadecimal digits.\<close>

definition hex_prefix :: "string \<Rightarrow> bool" where
  "hex_prefix s \<longleftrightarrow> take 2 s = ''0x'' \<or> take 2 s = ''0X''"

text \<open>The integer that a run of digits denotes in radix \<open>R\<close>.\<close>

definition digits_value :: "nat \<Rightarrow> string \<Rightarrow> int" where
  "digits_value R Z = foldl (\<lambda>a c. a * int R + int (the (digit_of R c))) 0 Z"

text \<open>
  The number for a sign and the integer read: the nearest double, and an infinity when
  that is beyond the largest double.
\<close>

definition read_number :: "int \<Rightarrow> int \<Rightarrow> number" where
  "read_number sign mathInt =
     (let d = round_double (of_int mathInt)
      in if d < 2 ^ 1024 then Number (sign * \<lfloor>d\<rfloor>)
         else if 0 < sign then PosInfinity else NegInfinity)"

text \<open>
  \<open>parseInt(p)\<close> with no radix: leading white space is skipped, then an optional sign,
  then an optional \<open>0x\<close> or \<open>0X\<close> which makes the radix 16; the longest run of digits that
  follows is the number, and whatever comes after it is ignored. No digit at all gives
  \<open>NaN\<close>.
\<close>

definition parseInt :: "string \<Rightarrow> number" where
  "parseInt inputString =
     (let S = dropWhile is_white_space inputString;
          sign = (if S \<noteq> [] \<and> hd S = CHR ''-'' then - 1 else 1 :: int);
          S1 = (if S \<noteq> [] \<and> (hd S = CHR ''+'' \<or> hd S = CHR ''-'') then tl S else S);
          hex = hex_prefix S1;
          R = (if hex then 16 else 10);
          S2 = (if hex then drop 2 S1 else S1);
          Z = takeWhile (\<lambda>c. digit_of R c \<noteq> None) S2
      in if Z = [] then NaN else read_number sign (digits_value R Z))"

text \<open>Line 59, \<open>p < 1 || p > newSectionSize\<close>: every comparison with \<open>NaN\<close> is false.\<close>

definition out_of_range :: "int \<Rightarrow> number \<Rightarrow> bool" where
  "out_of_range newSectionSize p =
     (case p of
        NaN \<Rightarrow> False
      | Number n \<Rightarrow> n < 1 \<or> n > newSectionSize
      | PosInfinity \<Rightarrow> True
      | NegInfinity \<Rightarrow> True)"

text \<open>
  The two ways in which lines 56-68 of \<open>DatabaseSectionCreator.tsx\<close> reject a pattern,
  named as the specification names them: the message "Pattern must contain numbers
  between 1 and N" is \<open>InvalidRange\<close>, the message "Pattern cannot contain duplicate
  numbers" is \<open>DuplicateValue\<close>. \<open>new Set(pattern).size\<close> is the length of the list
  without its repetitions.
\<close>

datatype validation = InvalidRange | DuplicateValue | Valid "number list"

definition validate_pattern :: "int \<Rightarrow> string list \<Rightarrow> validation" where
  "validate_pattern newSectionSize newSectionPattern =
     (let pattern = map parseInt newSectionPattern
      in if list_ex (\<lambda>p. p = NaN) pattern \<or> list_ex (out_of_range newSectionSize) pattern
         then InvalidRange
         else if length (remdups pattern) \<noteq> length pattern then DuplicateValue
         else Valid pattern)"

text \<open>
  \<open>handleCreateSection\<close>, lines 50-84: a name that is empty once trimmed ends the call;
  then the pattern is validated; a valid pattern is handed to \<open>createSection\<close> with the
  name and the size.
\<close>

datatype create_outcome = NameMissing | Rejected validation | Submitted string int "number list"

definition handleCreateSection :: "string \<Rightarrow> int \<Rightarrow> string list \<Rightarrow> create_outcome" where
  "handleCreateSection newSectionName newSectionSize newSectionPattern =
     (if list_all is_white_space newSectionName then NameMissing
      else case validate_pattern newSectionSize newSectionPattern of
             Valid pattern \<Rightarrow> Submitted newSectionName newSectionSize pattern
           | e \<Rightarrow> Rejected e)"

section \<open>Arithmetic of pixel offsets, and the store\<close>

lemma pixel_bound:
  assumes "x < w" "y < hg" "c < 4"
  shows "(y * w + x) * 4 + c < 4 * w * (hg::nat)"
proof -
  have "y * w + x < Suc y * w" using assms by simp
  also have "\<dots> \<le> hg * w" using assms by (intro mult_le_mono1) simp
  finally have "y * w + x < hg * w" .
  hence "(y * w + x) * 4 + 4 \<le> hg * w * 4" by simp
  thus ?thesis using assms by (simp add: mult.commute mult.left_commute)
qed

lemma pixel_inj:
  assumes "x < w" "x' < w" "c < 4" "c' < 4"
    and eq: "(y * w + x) * 4 + c = (y' * w + x') * 4 + c'"
  shows "x = x' \<and> y = (y'::nat) \<and> c = (c'::nat)"
proof -
  have c: "c = c'" using eq assms(3,4) by presburger
  hence p: "y * w + x = y' * w + x'" using eq by simp
  have "(y * w + x) mod w = x" "(y' * w + x') mod w = x'" using assms by simp_all
  hence x: "x = x'" using p by simp
  have "(y * w + x) div w = y" "(y' * w + x') div w = y'" using assms by simp_all
  hence "y = y'" using p by simp
  with c x show ?thesis by simp
qed

lemma rd_append_old: "p < length h0 \<Longrightarrow> rd (h0 @ [cur]) p i = rd h0 p i"
  by (simp add: rd_def nth_append)

lemma wr_append_new: "wr (h0 @ [cur]) (length h0) i v = h0 @ [ta_set cur i v]"
  by (simp add: wr_def)

lemma write_pixel_new:
  "write_pixel (h0 @ [cur]) (length h0) t (r, g, b, a) =
     h0 @ [ta_set (ta_set (ta_set (ta_set cur t r) (t + 1) g) (t + 2) b) (t + 3) a]"
  by (simp add: write_pixel_def wr_append_new)

lemma length_ta_set [simp]: "length (ta_set a i v) = length a"
  by (simp add: ta_set_def)

lemma copy_fold:
  assumes "src < length h0" "k \<le> length (h0 ! src)" "n = length (h0 ! src)"
  shows "fold (\<lambda>i h'. wr h' (length h0) i (rd h' src i)) [0..<k] (h0 @ [replicate n 0])
           = h0 @ [take k (h0 ! src) @ replicate (n - k) 0]"
  using assms(2)
proof (induction k)
  case 0
  show ?case by simp
next
  case (Suc k)
  have k: "k < length (h0 ! src)" using Suc.prems by simp
  let ?D = "h0 ! src"
  have len: "length (take k ?D) = k" using k by simp
  have "replicate (n - k) (0::byte) = 0 # replicate (n - Suc k) 0"
    using k assms(3) by (simp add: Suc_diff_Suc flip: replicate_Suc)
  hence "(take k ?D @ replicate (n - k) 0)[k := ?D ! k]
          = take k ?D @ (?D ! k) # replicate (n - Suc k) 0"
    using len by (simp add: list_update_append)
  moreover have "k < length (take k ?D @ replicate (n - k) 0)"
    using k assms(3) by simp
  ultimately have "ta_set (take k ?D @ replicate (n - k) 0) k (Some (?D ! k))
          = take (Suc k) ?D @ replicate (n - Suc k) 0"
    using k by (simp add: ta_set_def take_Suc_conv_app_nth)
  moreover have "rd (h0 @ [take k ?D @ replicate (n - k) 0]) src k = Some (?D ! k)"
    using k assms(1) by (simp add: rd_def ta_get_def nth_append)
  ultimately show ?case using Suc k
    by (simp add: wr_append_new)
qed

lemma copy_loop_fresh:
  assumes "src < length h0" "n = length (h0 ! src)"
  shows "copy_loop (h0 @ [replicate n 0]) src (length h0) = h0 @ [h0 ! src]"
  using copy_fold[OF assms(1) le_refl assms(2)] assms
  by (simp add: copy_loop_def array_length_def nth_append)


lemma ta_set_Some: "i < length a \<Longrightarrow> ta_set a i (Some b) = a[i := b]"
  by (simp add: ta_set_def)

lemma gathered_write:
  assumes inv: "gathered D w hg f R cur" and lenD: "length D = 4 * w * hg"
    and x0: "x0 < w" and y0: "y0 < hg"
    and t: "t = (y0 * w + x0) * 4" and s: "s = (y0 * w + f x0) * 4"
  shows "gathered D w hg f (\<lambda>x y. R x y \<or> (x = x0 \<and> y = y0))
           (ta_set (ta_set (ta_set (ta_set cur t (Some (D ! s))) (t + 1) (Some (D ! (s + 1))))
              (t + 2) (Some (D ! (s + 2)))) (t + 3) (Some (D ! (s + 3))))"
proof -
  have len: "length cur = length D" using inv by (simp add: gathered_def)
  have "(y0 * w + x0) * 4 + 3 < 4 * w * hg" using pixel_bound[OF x0 y0, of 3] by simp
  hence tl: "t + 3 < length cur" using t len lenD by simp
  let ?cur' = "cur[t := D ! s, t + 1 := D ! (s + 1), t + 2 := D ! (s + 2), t + 3 := D ! (s + 3)]"
  have eq: "ta_set (ta_set (ta_set (ta_set cur t (Some (D ! s))) (t + 1) (Some (D ! (s + 1))))
              (t + 2) (Some (D ! (s + 2)))) (t + 3) (Some (D ! (s + 3))) = ?cur'"
    using tl by (simp add: ta_set_Some)
  have "gathered D w hg f (\<lambda>x y. R x y \<or> (x = x0 \<and> y = y0)) ?cur'"
    unfolding gathered_def
  proof (intro conjI allI impI)
    show "length ?cur' = length D" using len by simp
  next
    fix x y c :: nat
    assume x: "x < w" and y: "y < hg" and c: "c < 4"
    let ?k = "(y * w + x) * 4 + c"
    have kl: "?k < length cur" using pixel_bound[OF x y c] len lenD by simp
    show "?cur' ! ?k = D ! ((y * w + (if R x y \<or> x = x0 \<and> y = y0 then f x else x)) * 4 + c)"
    proof (cases "x = x0 \<and> y = y0")
      case True
      hence k: "?k = t + c" using t by simp
      have "c = 0 \<or> c = 1 \<or> c = 2 \<or> c = 3" using c by arith
      thus ?thesis using True k tl s by (auto simp: nth_list_update)
    next
      case False
      have ne: "?k \<noteq> t + c'" if "c' < 4" for c'
        using pixel_inj[OF x x0 c that, of y y0] False t by auto
      have "?k \<noteq> t" "?k \<noteq> t + 1" "?k \<noteq> t + 2" "?k \<noteq> t + 3"
        using ne[of 0] ne[of 1] ne[of 2] ne[of 3] by simp_all
      hence upd: "?cur' ! ?k = cur ! ?k" by (simp add: nth_list_update)
      have R: "(R x y \<or> x = x0 \<and> y = y0) = R x y" using False by blast
      have "cur ! ?k = D ! ((y * w + (if R x y then f x else x)) * 4 + c)"
        using inv x y c unfolding gathered_def by blast
      thus ?thesis unfolding R upd .
    qed
  qed
  thus ?thesis using eq by simp
qed

lemma originalRowData_nth:
  assumes src: "src < length h0" and lenD: "length (h0 ! src) = 4 * w * hg"
    and k: "k < S" and x: "sx + k < w" and y: "y < hg"
  shows "originalRowData (h0 @ [cur]) src w y sx S ! k =
           (let i = (y * w + (sx + k)) * 4; D = h0 ! src
            in (Some (D ! i), Some (D ! (i + 1)), Some (D ! (i + 2)), Some (D ! (i + 3))))"
proof -
  have b: "(y * w + (sx + k)) * 4 + c < length (h0 ! src)" if "c < 4" for c
    using pixel_bound[OF x y that] lenD by simp
  have "rd (h0 @ [cur]) src ((y * w + (sx + k)) * 4 + c) = Some ((h0 ! src) ! ((y * w + (sx + k)) * 4 + c))"
    if "c < 4" for c
    using b[OF that] src by (simp add: rd_def ta_get_def nth_append)
  from this[of 0] this[of 1] this[of 2] this[of 3] k show ?thesis
    by (simp add: originalRowData_def pixelIndex_def Let_def)
qed

lemma source_column_slice:
  assumes "j < S"
  shows "source_column S pat (n * S + j) = n * S + nat (pat ! j - 1)"
  using assms by (simp add: source_column_def)

lemma apply_column_step:
  assumes inv: "gathered D w hg (source_column S pat) R cur"
    and src: "src < length h0" and D: "h0 ! src = D" and lenD: "length D = 4 * w * hg"
    and row: "row = originalRowData (h0 @ [c0]) src w y (n * S) S"
    and j: "j < S" and fit: "n * S + S \<le> w" and y: "y < hg"
    and lp: "j < length pat" and lo: "1 \<le> pat ! j" and hi: "pat ! j \<le> int S"
  shows "\<exists>cur'. apply_column (length h0) w y (n * S) pat row (h0 @ [cur]) j = Normal (h0 @ [cur'])
           \<and> gathered D w hg (source_column S pat) (\<lambda>x y'. R x y' \<or> (x = n * S + j \<and> y' = y)) cur'"
proof -
  let ?sc = "nat (pat ! j - 1)"
  have sc: "?sc < S" using lo hi by linarith
  have lrow: "length row = S" using row by (simp add: originalRowData_def)
  have x0: "n * S + j < w" using j fit by simp
  have xs: "n * S + ?sc < w" using sc fit by simp
  have f: "source_column S pat (n * S + j) = n * S + ?sc" using j by (rule source_column_slice)
  have rw: "row ! ?sc = (let i = (y * w + (n * S + ?sc)) * 4
            in (Some (D ! i), Some (D ! (i + 1)), Some (D ! (i + 2)), Some (D ! (i + 3))))"
    using originalRowData_nth[OF src _ sc xs y, of c0] lenD D row by (simp add: Let_def)
  have "apply_column (length h0) w y (n * S) pat row (h0 @ [cur]) j =
          Normal (write_pixel (h0 @ [cur]) (length h0) ((y * w + (n * S + j)) * 4) (row ! ?sc))"
    using lp lo sc lrow by (simp add: apply_column_def pixelIndex_def)
  hence "apply_column (length h0) w y (n * S) pat row (h0 @ [cur]) j =
          Normal (h0 @ [ta_set (ta_set (ta_set (ta_set cur ((y * w + (n * S + j)) * 4)
             (Some (D ! ((y * w + (n * S + ?sc)) * 4))))
             ((y * w + (n * S + j)) * 4 + 1) (Some (D ! ((y * w + (n * S + ?sc)) * 4 + 1))))
             ((y * w + (n * S + j)) * 4 + 2) (Some (D ! ((y * w + (n * S + ?sc)) * 4 + 2))))
             ((y * w + (n * S + j)) * 4 + 3) (Some (D ! ((y * w + (n * S + ?sc)) * 4 + 3)))])"
    by (simp add: rw Let_def write_pixel_new)
  moreover have "gathered D w hg (source_column S pat) (\<lambda>x y'. R x y' \<or> (x = n * S + j \<and> y' = y))
         (ta_set (ta_set (ta_set (ta_set cur ((y * w + (n * S + j)) * 4)
             (Some (D ! ((y * w + (n * S + ?sc)) * 4))))
             ((y * w + (n * S + j)) * 4 + 1) (Some (D ! ((y * w + (n * S + ?sc)) * 4 + 1))))
             ((y * w + (n * S + j)) * 4 + 2) (Some (D ! ((y * w + (n * S + ?sc)) * 4 + 2))))
             ((y * w + (n * S + j)) * 4 + 3) (Some (D ! ((y * w + (n * S + ?sc)) * 4 + 3))))"
    by (rule gathered_write[OF inv lenD x0 y refl]) (simp add: f)
  ultimately show ?thesis by blast
qed


lemma for_each_append:
  "for_each body (xs @ ys) h =
     (case for_each body xs h of Normal h' \<Rightarrow> for_each body ys h' | Throw e h' \<Rightarrow> Throw e h')"
  by (induction xs arbitrary: h) (auto split: completion.splits)

lemma for_each_upt_inv:
  assumes init: "I 0 h"
    and step: "\<And>i h. i < n \<Longrightarrow> I i h \<Longrightarrow> \<exists>h'. body h i = Normal h' \<and> I (Suc i) h'"
  shows "\<exists>h'. for_each body [0..<n] h = Normal h' \<and> I n h'"
proof -
  have "k \<le> n \<Longrightarrow> \<exists>h'. for_each body [0..<k] h = Normal h' \<and> I k h'" for k
  proof (induction k)
    case 0
    show ?case using init by simp
  next
    case (Suc k)
    then obtain h' where h': "for_each body [0..<k] h = Normal h'" "I k h'" by auto
    from step[OF _ h'(2)] Suc.prems obtain h'' where "body h' k = Normal h''" "I (Suc k) h''"
      by auto
    thus ?case using h' by (simp add: for_each_append)
  qed
  thus ?thesis by simp
qed

lemma gathered_cong:
  assumes "\<And>x y. x < w \<Longrightarrow> y < hg \<Longrightarrow> R x y = R' x y"
  shows "gathered D w hg f R cur = gathered D w hg f R' cur"
  using assms by (simp add: gathered_def)

lemma process_row_step:
  assumes inv: "gathered D w hg (source_column S pat) R cur"
    and src: "src < length h0" and D: "h0 ! src = D" and lenD: "length D = 4 * w * hg"
    and fit: "n * S + S \<le> w" and y: "y < hg" and pat: "pattern_fits S pat"
  shows "\<exists>cur'. process_row src (length h0) w (n * S) S pat (h0 @ [cur]) y = Normal (h0 @ [cur'])
           \<and> gathered D w hg (source_column S pat)
                (\<lambda>x y'. R x y' \<or> (y' = y \<and> n * S \<le> x \<and> x < n * S + S)) cur'"
proof -
  let ?I = "\<lambda>j h. \<exists>c. h = h0 @ [c] \<and> gathered D w hg (source_column S pat)
                (\<lambda>x y'. R x y' \<or> (y' = y \<and> n * S \<le> x \<and> x < n * S + j)) c"
  let ?row = "originalRowData (h0 @ [cur]) src w y (n * S) S"
  have "gathered D w hg (source_column S pat)
          (\<lambda>x y'. R x y' \<or> (y' = y \<and> n * S \<le> x \<and> x < n * S + 0)) cur"
    using inv by (rule gathered_cong[THEN iffD1, rotated]) auto
  hence init: "?I 0 (h0 @ [cur])" by blast
  have step: "\<exists>h'. apply_column (length h0) w y (n * S) pat ?row h j = Normal h' \<and> ?I (Suc j) h'"
    if j: "j < S" and I: "?I j h" for j h
  proof -
    from I obtain c where h: "h = h0 @ [c]"
      and g: "gathered D w hg (source_column S pat)
                (\<lambda>x y'. R x y' \<or> (y' = y \<and> n * S \<le> x \<and> x < n * S + j)) c" by blast
    have p: "j < length pat" "1 \<le> pat ! j" "pat ! j \<le> int S"
      using pat j by (simp_all add: pattern_fits_def)
    from apply_column_step[OF g src D lenD refl j fit y p]
    obtain c' where a: "apply_column (length h0) w y (n * S) pat ?row (h0 @ [c]) j = Normal (h0 @ [c'])"
      and g': "gathered D w hg (source_column S pat)
          (\<lambda>x y'. (R x y' \<or> (y' = y \<and> n * S \<le> x \<and> x < n * S + j)) \<or> (x = n * S + j \<and> y' = y)) c'"
      by blast
    have "gathered D w hg (source_column S pat)
          (\<lambda>x y'. R x y' \<or> (y' = y \<and> n * S \<le> x \<and> x < n * S + Suc j)) c'"
      using g' by (rule gathered_cong[THEN iffD1, rotated]) auto
    thus ?thesis using a h by blast
  qed
  from for_each_upt_inv[of ?I "h0 @ [cur]" S "apply_column (length h0) w y (n * S) pat ?row", OF init step]
  show ?thesis by (auto simp: process_row_def)
qed

lemma process_slice_step:
  assumes inv: "gathered D w hg (source_column S pat) R cur"
    and src: "src < length h0" and D: "h0 ! src = D" and lenD: "length D = 4 * w * hg"
    and fit: "n * S + S \<le> w" and pat: "pattern_fits S pat"
  shows "\<exists>cur'. process_slice src (length h0) w hg S pat n (h0 @ [cur]) = Normal (h0 @ [cur'])
           \<and> gathered D w hg (source_column S pat)
                (\<lambda>x y'. R x y' \<or> (n * S \<le> x \<and> x < n * S + S)) cur'"
proof -
  let ?I = "\<lambda>y h. \<exists>c. h = h0 @ [c] \<and> gathered D w hg (source_column S pat)
                (\<lambda>x y'. R x y' \<or> (y' < y \<and> n * S \<le> x \<and> x < n * S + S)) c"
  have "gathered D w hg (source_column S pat)
          (\<lambda>x y'. R x y' \<or> (y' < 0 \<and> n * S \<le> x \<and> x < n * S + S)) cur"
    using inv by (rule gathered_cong[THEN iffD1, rotated]) auto
  hence init: "?I 0 (h0 @ [cur])" by blast
  have step: "\<exists>h'. process_row src (length h0) w (n * S) S pat h y = Normal h' \<and> ?I (Suc y) h'"
    if y: "y < hg" and I: "?I y h" for y h
  proof -
    from I obtain c where h: "h = h0 @ [c]"
      and g: "gathered D w hg (source_column S pat)
                (\<lambda>x y'. R x y' \<or> (y' < y \<and> n * S \<le> x \<and> x < n * S + S)) c" by blast
    from process_row_step[OF g src D lenD fit y pat]
    obtain c' where a: "process_row src (length h0) w (n * S) S pat (h0 @ [c]) y = Normal (h0 @ [c'])"
      and g': "gathered D w hg (source_column S pat)
          (\<lambda>x y'. (R x y' \<or> (y' < y \<and> n * S \<le> x \<and> x < n * S + S))
                  \<or> (y' = y \<and> n * S \<le> x \<and> x < n * S + S)) c'"
      by blast
    have "gathered D w hg (source_column S pat)
          (\<lambda>x y'. R x y' \<or> (y' < Suc y \<and> n * S \<le> x \<and> x < n * S + S)) c'"
      using g' by (rule gathered_cong[THEN iffD1, rotated]) auto
    thus ?thesis using a h by blast
  qed
  from for_each_upt_inv[of ?I "h0 @ [cur]" hg "process_row src (length h0) w (n * S) S pat", OF init step]
  obtain c where a: "process_slice src (length h0) w hg S pat n (h0 @ [cur]) = Normal (h0 @ [c])"
    and g: "gathered D w hg (source_column S pat)
                (\<lambda>x y'. R x y' \<or> (y' < hg \<and> n * S \<le> x \<and> x < n * S + S)) c"
    by (auto simp: process_slice_def)
  have "gathered D w hg (source_column S pat)
                (\<lambda>x y'. R x y' \<or> (n * S \<le> x \<and> x < n * S + S)) c"
    using g by (rule gathered_cong[THEN iffD1, rotated]) auto
  thus ?thesis using a by blast
qed

lemma slice_loop_finite:
  assumes src: "src < length h0" and D: "h0 ! src = D" and lenD: "length D = 4 * w * hg"
    and fit: "N * S \<le> w" and pat: "pattern_fits S pat"
  shows "sl \<le> N \<Longrightarrow> gathered D w hg (source_column S pat) (\<lambda>x y. x < sl * S) cur \<Longrightarrow>
         \<exists>cur'. slice_loop src (length h0) w hg S pat (Finite (int N)) sl (h0 @ [cur]) reported
                 = Some (Normal (h0 @ [cur']),
                         reported @ map (\<lambda>i. progress_value i (Finite (int N))) [sl..<N])
           \<and> gathered D w hg (source_column S pat) (\<lambda>x y. x < N * S) cur'"
proof (induction "N - sl" arbitrary: sl cur reported)
  case 0
  hence "sl = N" by simp
  thus ?case using "0.prems" by (subst slice_loop.simps) simp
next
  case (Suc k)
  hence lt: "sl < N" by simp
  have "Suc sl * S \<le> N * S" using lt by (intro mult_le_mono1) simp
  hence fit': "sl * S + S \<le> w" using fit by simp
  from process_slice_step[OF Suc.prems(2) src D lenD fit' pat]
  obtain c where a: "process_slice src (length h0) w hg S pat sl (h0 @ [cur]) = Normal (h0 @ [c])"
    and g: "gathered D w hg (source_column S pat)
              (\<lambda>x y'. x < sl * S \<or> (sl * S \<le> x \<and> x < sl * S + S)) c" by blast
  have g': "gathered D w hg (source_column S pat) (\<lambda>x y. x < (sl + 1) * S) c"
    using g by (rule gathered_cong[THEN iffD1, rotated]) auto
  have k: "k = N - (sl + 1)" using Suc.hyps(2) by simp
  from Suc.hyps(1)[OF k _ g', of "reported @ [progress_value sl (Finite (int N))]"] lt
  obtain cur' where
    "slice_loop src (length h0) w hg S pat (Finite (int N)) (sl + 1) (h0 @ [c])
        (reported @ [progress_value sl (Finite (int N))])
      = Some (Normal (h0 @ [cur']),
              (reported @ [progress_value sl (Finite (int N))]) @
                map (\<lambda>i. progress_value i (Finite (int N))) [sl + 1..<N])"
    and "gathered D w hg (source_column S pat) (\<lambda>x y. x < N * S) cur'" by auto
  thus ?case using lt a
    by (subst slice_loop.simps) (simp add: upt_conv_Cons del: progress_value.simps)
qed


lemma valid_section_fits:
  "valid_section sec \<Longrightarrow> pattern_fits (nat (section_size sec)) (section_pattern sec)"
  by (auto simp: valid_section_def pattern_fits_def list_all_length)

lemma processImage_gathered:
  assumes img: "valid_image h img" and sz: "1 \<le> section_size sec"
    and pat: "pattern_fits (nat (section_size sec)) (section_pattern sec)"
  shows "\<exists>cur. processImage h (Some img) (Some sec) =
           Some (\<lparr>outcome = Completed \<lparr>width = width img, height = height img, data = length h\<rparr>,
                  progress_calls =
                    0 # map (\<lambda>i. progress_value i (Finite (int (width img div nat (section_size sec)))))
                          [0..<width img div nat (section_size sec)] @ [0]\<rparr>,
                 h @ [cur])
         \<and> gathered (h ! data img) (width img) (height img)
             (source_column (nat (section_size sec)) (section_pattern sec))
             (\<lambda>x y. x < (width img div nat (section_size sec)) * nat (section_size sec)) cur"
proof -
  define S where "S = nat (section_size sec)"
  define N where "N = width img div S"
  define D where "D = h ! data img"
  have src: "data img < length h" and lenD: "length D = 4 * width img * height img"
    and wh: "width img \<noteq> 0" "height img \<noteq> 0"
    using img by (simp_all add: valid_image_def D_def)
  have S: "section_size sec = int S" "S \<noteq> 0" using sz by (simp_all add: S_def)
  have num: "numCompleteSlices (width img) (section_size sec) = Finite (int N)"
    using S by (simp add: numCompleteSlices_def N_def zdiv_int)
  have copy: "copy_loop (h @ [replicate (4 * width img * height img) 0]) (data img) (length h) = h @ [D]"
    using copy_loop_fresh[OF src, of "4 * width img * height img"] lenD by (simp add: D_def)
  have g0: "gathered D (width img) (height img) (source_column S (section_pattern sec))
              (\<lambda>x y. x < 0 * S) D"
    by (simp add: gathered_def)
  have fit: "N * S \<le> width img" by (simp add: N_def)
  from slice_loop_finite[OF src D_def[symmetric] lenD fit pat[folded S_def] le0 g0, of "[0]"]
  obtain cur where
    loop: "slice_loop (data img) (length h) (width img) (height img) S (section_pattern sec)
             (Finite (int N)) 0 (h @ [D]) [0]
           = Some (Normal (h @ [cur]), [0] @ map (\<lambda>i. progress_value i (Finite (int N))) [0..<N])"
    and g: "gathered D (width img) (height img) (source_column S (section_pattern sec))
              (\<lambda>x y. x < N * S) cur" by blast
  have "processImage h (Some img) (Some sec) =
           Some (\<lparr>outcome = Completed \<lparr>width = width img, height = height img, data = length h\<rparr>,
                  progress_calls = 0 # map (\<lambda>i. progress_value i (Finite (int N))) [0..<N] @ [0]\<rparr>,
                 h @ [cur])"
    unfolding processImage_def using wh
    by (simp add: copy num loop S_def[symmetric] del: progress_value.simps)
  thus ?thesis using g unfolding N_def S_def D_def by blast
qed

lemma pixel_at_valid:
  assumes "data img < length h" "length (h ! data img) = 4 * width img * height img"
    "x < width img" "y < height img"
  shows "pixel_at h img x y =
     (let i = (y * width img + x) * 4; D = h ! data img
      in (Some (D ! i), Some (D ! (i + 1)), Some (D ! (i + 2)), Some (D ! (i + 3))))"
proof -
  have "rd h (data img) ((y * width img + x) * 4 + c) = Some ((h ! data img) ! ((y * width img + x) * 4 + c))"
    if "c < 4" for c
    using pixel_bound[OF assms(3,4) that] assms(1,2) by (simp add: rd_def ta_get_def)
  from this[of 0] this[of 1] this[of 2] this[of 3] show ?thesis
    by (simp add: pixel_at_def pixelIndex_def Let_def)
qed

lemma gathered_pixel:
  assumes g: "gathered D w hg f R cur" and lenD: "length D = 4 * w * hg"
    and img: "data img < length h" "h ! data img = D" "width img = w" "height img = hg"
    and x: "x < w" and y: "y < hg" and fx: "R x y \<Longrightarrow> f x < w"
  shows "pixel_at (h @ [cur]) \<lparr>width = w, height = hg, data = length h\<rparr> x y
           = pixel_at h img (if R x y then f x else x) y"
proof -
  have len: "length cur = 4 * w * hg" using g lenD by (simp add: gathered_def)
  have c: "cur ! ((y * w + x) * 4 + c) = D ! ((y * w + (if R x y then f x else x)) * 4 + c)"
    if "c < 4" for c using g x y that unfolding gathered_def by blast
  have x': "(if R x y then f x else x) < w" using x fx by simp
  have "pixel_at (h @ [cur]) \<lparr>width = w, height = hg, data = length h\<rparr> x y =
     (let i = (y * w + x) * 4
      in (Some (cur ! i), Some (cur ! (i + 1)), Some (cur ! (i + 2)), Some (cur ! (i + 3))))"
    using pixel_at_valid[of "\<lparr>width = w, height = hg, data = length h\<rparr>" "h @ [cur]" x y] x y len
    by simp
  moreover have "pixel_at h img (if R x y then f x else x) y =
     (let i = (y * w + (if R x y then f x else x)) * 4
      in (Some (D ! i), Some (D ! (i + 1)), Some (D ! (i + 2)), Some (D ! (i + 3))))"
    using pixel_at_valid[of img h "if R x y then f x else x" y] img lenD x' y by simp
  ultimately show ?thesis using c[of 0] c[of 1] c[of 2] c[of 3] by (simp add: Let_def)
qed

lemma source_column_less:
  assumes pat: "pattern_fits S pat" and S: "S \<noteq> 0" and x: "x < (w div S) * S"
  shows "source_column S pat x < (w div S) * S"
proof -
  have j: "x mod S < S" using S by simp
  hence "1 \<le> pat ! (x mod S) \<and> pat ! (x mod S) \<le> int S"
    using pat unfolding pattern_fits_def by blast
  hence "nat (pat ! (x mod S) - 1) < S" by linarith
  hence "source_column S pat x < (x div S) * S + S" by (simp add: source_column_def)
  also have "\<dots> = Suc (x div S) * S" by simp
  also have "\<dots> \<le> (w div S) * S"
  proof (intro mult_le_mono1)
    have "x div S < w div S" using x S by (simp add: less_mult_imp_div_less)
    thus "Suc (x div S) \<le> w div S" by simp
  qed
  finally show ?thesis .
qed

text \<open>The pixel-level description of a successful run, shared by the claims below.\<close>

lemma processImage_pixels:
  assumes img: "valid_image h img" and sz: "1 \<le> section_size sec"
    and pat: "pattern_fits (nat (section_size sec)) (section_pattern sec)"
  shows "\<exists>cur. processImage h (Some img) (Some sec) =
           Some (\<lparr>outcome = Completed \<lparr>width = width img, height = height img, data = length h\<rparr>,
                  progress_calls =
                    0 # map (\<lambda>i. progress_value i (Finite (int (width img div nat (section_size sec)))))
                          [0..<width img div nat (section_size sec)] @ [0]\<rparr>,
                 h @ [cur])
         \<and> length cur = 4 * width img * height img
         \<and> (\<forall>x<width img. \<forall>y<height img.
              pixel_at (h @ [cur]) \<lparr>width = width img, height = height img, data = length h\<rparr> x y
                = pixel_at h img
                    (if x < (width img div nat (section_size sec)) * nat (section_size sec)
                     then source_column (nat (section_size sec)) (section_pattern sec) x else x) y)"
proof -
  define S where "S = nat (section_size sec)"
  have S: "S \<noteq> 0" using sz by (simp add: S_def)
  have src: "data img < length h" and lenD: "length (h ! data img) = 4 * width img * height img"
    using img by (simp_all add: valid_image_def)
  from processImage_gathered[OF img sz pat] obtain cur where
    run: "processImage h (Some img) (Some sec) =
           Some (\<lparr>outcome = Completed \<lparr>width = width img, height = height img, data = length h\<rparr>,
                  progress_calls =
                    0 # map (\<lambda>i. progress_value i (Finite (int (width img div S))))
                          [0..<width img div S] @ [0]\<rparr>,
                 h @ [cur])"
    and g: "gathered (h ! data img) (width img) (height img) (source_column S (section_pattern sec))
             (\<lambda>x y. x < (width img div S) * S) cur"
    unfolding S_def by blast
  have "pixel_at (h @ [cur]) \<lparr>width = width img, height = height img, data = length h\<rparr> x y
          = pixel_at h img (if x < (width img div S) * S
                            then source_column S (section_pattern sec) x else x) y"
    if x: "x < width img" and y: "y < height img" for x y
  proof (rule gathered_pixel[OF g lenD src refl refl refl x y])
    assume "x < (width img div S) * S"
    from source_column_less[OF pat[folded S_def] S this]
    show "source_column S (section_pattern sec) x < width img"
      by (rule less_le_trans) simp
  qed
  moreover have "length cur = 4 * width img * height img" using g lenD by (simp add: gathered_def)
  ultimately show ?thesis using run unfolding S_def by blast
qed

lemma offset_decompose:
  assumes k: "k < 4 * w * hg"
  shows "\<exists>x y c. x < w \<and> y < hg \<and> c < 4 \<and> k = (y * w + x) * 4 + (c::nat)"
proof -
  have w: "0 < w" using k by (cases w) simp_all
  let ?p = "k div 4"
  have p: "?p < w * hg" using k by (simp add: less_mult_imp_div_less mult.commute mult.left_commute)
  have "?p div w < hg" using p w by (simp add: less_mult_imp_div_less mult.commute)
  moreover have "?p mod w < w" using w by simp
  moreover have "k mod 4 < 4" by simp
  moreover have "k = ((?p div w) * w + ?p mod w) * 4 + k mod 4" by simp
  ultimately show ?thesis by blast
qed

lemma gathered_same:
  assumes g: "gathered D w hg f R cur" and lenD: "length D = 4 * w * hg"
    and fx: "\<And>x y. x < w \<Longrightarrow> y < hg \<Longrightarrow> R x y \<Longrightarrow> f x = x"
  shows "cur = D"
proof (rule nth_equalityI)
  show len: "length cur = length D" using g by (simp add: gathered_def)
  fix k assume "k < length cur"
  hence "k < 4 * w * hg" using len lenD by simp
  from offset_decompose[OF this] obtain x y c where
    xyc: "x < w" "y < hg" "c < 4" "k = (y * w + x) * 4 + c" by blast
  have "cur ! ((y * w + x) * 4 + c) = D ! ((y * w + (if R x y then f x else x)) * 4 + c)"
    using g xyc unfolding gathered_def by blast
  moreover have "(if R x y then f x else x) = x" using fx[OF xyc(1,2)] by simp
  ultimately show "cur ! k = D ! k" using xyc(4) by simp
qed

lemma identity_pattern_nth: "j < S \<Longrightarrow> [1..int S] ! j = int j + 1"
  by (simp add: nth_upto)

lemma identity_pattern_fits: "pattern_fits S [1..int S]"
  by (simp add: pattern_fits_def identity_pattern_nth)

lemma source_column_identity: "S \<noteq> 0 \<Longrightarrow> source_column S [1..int S] x = x"
  by (simp add: source_column_def identity_pattern_nth)

lemma valid_section_positions:
  assumes "valid_section sec"
  shows "mset (map (\<lambda>j. nat (section_pattern sec ! j - 1)) [0..<nat (section_size sec)])
           = mset [0..<nat (section_size sec)]"
proof -
  define S where "S = nat (section_size sec)"
  define P where "P = section_pattern sec"
  have len: "length P = S" and rng: "\<And>p. p \<in> set P \<Longrightarrow> 1 \<le> p \<and> p \<le> int S"
    and dist: "distinct P"
    using assms by (auto simp: valid_section_def S_def P_def list_all_iff)
  have m: "map (\<lambda>j. nat (P ! j - 1)) [0..<S] = map (\<lambda>p. nat (p - 1)) P"
    using len by (intro nth_equalityI) simp_all
  have inj: "inj_on (\<lambda>p. nat (p - 1)) (set P)"
  proof (rule inj_onI)
    fix p q assume "p \<in> set P" "q \<in> set P" and e: "nat (p - 1) = nat (q - 1)"
    hence "1 \<le> p" "1 \<le> q" using rng by blast+
    thus "p = q" using e by arith
  qed
  have d: "distinct (map (\<lambda>p. nat (p - 1)) P)" using dist inj by (simp add: distinct_map)
  have sub: "set (map (\<lambda>p. nat (p - 1)) P) \<subseteq> {0..<S}" using rng by force
  have "card (set (map (\<lambda>p. nat (p - 1)) P)) = S" using d len distinct_card by fastforce
  hence "set (map (\<lambda>p. nat (p - 1)) P) = {0..<S}"
    using sub by (intro card_subset_eq) simp_all
  hence "mset (map (\<lambda>p. nat (p - 1)) P) = mset [0..<S]"
    using d by (intro set_eq_iff_mset_eq_distinct[THEN iffD1]) simp_all
  thus ?thesis using m unfolding S_def P_def by simp
qed

lemma only_new_iff: "only_new h0 h \<longleftrightarrow> (\<exists>c. h = h0 @ [c])"
proof
  assume a: "only_new h0 h"
  hence "h = take (length h0) h @ drop (length h0) h" by simp
  moreover have "length (drop (length h0) h) = 1" using a by (simp add: only_new_def)
  then obtain c where "drop (length h0) h = [c]"
    by (cases "drop (length h0) h") simp_all
  ultimately show "\<exists>c. h = h0 @ [c]" using a by (auto simp: only_new_def)
next
  assume "\<exists>c. h = h0 @ [c]"
  thus "only_new h0 h" by (auto simp: only_new_def)
qed

lemma wr_only_new: "only_new h0 h \<Longrightarrow> only_new h0 (wr h (length h0) i v)"
  by (auto simp: only_new_iff wr_append_new)

lemma write_pixel_only_new: "only_new h0 h \<Longrightarrow> only_new h0 (write_pixel h (length h0) t p)"
  by (cases p) (simp add: write_pixel_def wr_only_new)

lemma apply_column_only_new:
  "only_new h0 h \<Longrightarrow> only_new h0 (final_store (apply_column (length h0) w y sx pat row h x))"
  by (simp add: apply_column_def write_pixel_only_new)

lemma for_each_final:
  assumes "\<And>h x. P h \<Longrightarrow> P (final_store (body h x))" and "P h"
  shows "P (final_store (for_each body xs h))"
  using assms(2)
proof (induction xs arbitrary: h)
  case Nil
  thus ?case by simp
next
  case (Cons x xs)
  from assms(1)[OF Cons.prems, of x] Cons.IH show ?case
    by (cases "body h x") simp_all
qed

lemma process_row_only_new:
  "only_new h0 h \<Longrightarrow> only_new h0 (final_store (process_row src (length h0) w sx S pat h y))"
  unfolding process_row_def by (rule for_each_final) (rule apply_column_only_new)

lemma process_slice_only_new:
  "only_new h0 h \<Longrightarrow> only_new h0 (final_store (process_slice src (length h0) w hg S pat sl h))"
  unfolding process_slice_def by (rule for_each_final) (rule process_row_only_new)

lemma slice_loop_only_new:
  assumes "slice_loop src newData w hg S pat n sl h reported = Some res"
  shows "newData = length h0 \<longrightarrow> only_new h0 h \<longrightarrow> only_new h0 (final_store (fst res))"
proof (rule slice_loop.raw_induct
    [where P = "\<lambda>src newData w hg S pat n sl h reported res.
       newData = length h0 \<longrightarrow> only_new h0 h \<longrightarrow> only_new h0 (final_store (fst res))",
     OF _ assms], goal_cases)
  case (1 slice_loop src newData w hg S pat n sl h reported res)
  show ?case
  proof (intro impI)
    assume nd: "newData = length h0" and h: "only_new h0 h"
    show "only_new h0 (final_store (fst res))"
    proof (cases "slice_lt sl n")
      case False
      thus ?thesis using 1(2) h by auto
    next
      case True
      have ps: "only_new h0 (final_store (process_slice src newData w hg S pat sl h))"
        using process_slice_only_new[OF h] nd by simp
      show ?thesis
      proof (cases "process_slice src newData w hg S pat sl h")
        case (Normal h')
        hence "slice_loop src newData w hg S pat n (sl + 1) h' (reported @ [progress_value sl n]) = Some res"
          using 1(2) True by simp
        hence "newData = length h0 \<longrightarrow> only_new h0 h' \<longrightarrow> only_new h0 (final_store (fst res))"
          by (rule 1(1))
        moreover have "only_new h0 h'" using ps Normal by simp
        ultimately show ?thesis using nd by blast
      next
        case (Throw e h')
        thus ?thesis using 1(2) True ps by auto
      qed
    qed
  qed
qed

lemma copy_loop_only_new:
  "only_new h0 h \<Longrightarrow> only_new h0 (copy_loop h src (length h0))"
proof -
  have "only_new h0 h \<Longrightarrow> only_new h0 (fold (\<lambda>i h'. wr h' (length h0) i (rd h' src i)) xs h)" for xs
    by (induction xs arbitrary: h) (simp_all add: wr_only_new)
  thus "only_new h0 h \<Longrightarrow> only_new h0 (copy_loop h src (length h0))"
    by (simp add: copy_loop_def)
qed

lemma processImage_frame:
  assumes "processImage h oi os = Some (r, h')"
  shows "take (length h) h' = h"
proof (cases "\<exists>img sec. oi = Some img \<and> os = Some sec \<and> width img \<noteq> 0 \<and> height img \<noteq> 0")
  case False
  hence "h' = h" using assms
    by (auto simp: processImage_def split: option.splits if_splits)
  thus ?thesis by simp
next
  case True
  then obtain img sec where io: "oi = Some img" "os = Some sec" and wh: "width img \<noteq> 0" "height img \<noteq> 0"
    by blast
  let ?h2 = "copy_loop (h @ [replicate (4 * width img * height img) 0]) (data img) (length h)"
  have h2: "only_new h ?h2" by (rule copy_loop_only_new) (simp add: only_new_def)
  from assms io wh obtain c rep where
    loop: "slice_loop (data img) (length h) (width img) (height img)
                       (nat (section_size sec)) (section_pattern sec)
                       (numCompleteSlices (width img) (section_size sec)) 0 ?h2 [0] = Some (c, rep)"
    and fin: "h' = final_store c"
    by (auto simp: processImage_def Let_def split: option.splits completion.splits)
  from slice_loop_only_new[OF loop, of h] h2 fin have "only_new h h'" by simp
  thus ?thesis by (simp add: only_new_def)
qed

lemma position_less: "v \<in> set xs \<Longrightarrow> position v xs < length xs"
  by (induction xs) auto

lemma nth_position: "v \<in> set xs \<Longrightarrow> xs ! position v xs = v"
  by (induction xs) auto

lemma valid_section_set:
  assumes "valid_section sec"
  shows "set (section_pattern sec) = {1..section_size sec}"
proof (rule card_subset_eq)
  show "finite {1..section_size sec}" by simp
  show "set (section_pattern sec) \<subseteq> {1..section_size sec}"
    using assms by (auto simp: valid_section_def list_all_iff)
  have "card (set (section_pattern sec)) = length (section_pattern sec)"
    using assms by (simp add: valid_section_def distinct_card)
  also have "\<dots> = nat (section_size sec)" using assms unfolding valid_section_def by (metis nat_int)
  finally show "card (set (section_pattern sec)) = card {1..section_size sec}" by simp
qed

lemma inverse_pattern_nth:
  assumes "j < length pat"
  shows "inverse_pattern pat ! j = int (position (int j + 1) pat) + 1"
  using assms by (simp add: inverse_pattern_def nth_upto add.commute)

lemma valid_section_inverse:
  assumes v: "valid_section sec"
  shows "valid_section (sec\<lparr>section_pattern := inverse_pattern (section_pattern sec)\<rparr>)"
proof -
  define P where "P = section_pattern sec"
  have sz: "1 \<le> section_size sec" and len: "int (length P) = section_size sec"
    using v by (simp_all add: valid_section_def P_def)
  have set: "set P = {1..int (length P)}" using valid_section_set[OF v] len by (simp add: P_def)
  have rng: "1 \<le> int (position u P) + 1 \<and> int (position u P) + 1 \<le> int (length P)"
    if "u \<in> {1..int (length P)}" for u
    using position_less[of u P] that set by simp
  have inj: "inj_on (\<lambda>u. int (position u P) + 1) {1..int (length P)}"
  proof (rule inj_onI)
    fix a b assume a: "a \<in> {1..int (length P)}" and b: "b \<in> {1..int (length P)}"
      and e: "int (position a P) + 1 = int (position b P) + 1"
    have "a = P ! position a P" using nth_position[of a P] a set by simp
    also have "\<dots> = P ! position b P" using e by simp
    also have "\<dots> = b" using nth_position[of b P] b set by simp
    finally show "a = b" .
  qed
  have "distinct (inverse_pattern P)"
    unfolding inverse_pattern_def using inj by (simp add: distinct_map)
  moreover have "list_all (\<lambda>p. 1 \<le> p \<and> p \<le> section_size sec) (inverse_pattern P)"
    unfolding inverse_pattern_def list_all_iff using rng len by auto
  moreover have "int (length (inverse_pattern P)) = section_size sec"
    using len by (simp add: inverse_pattern_def)
  ultimately show ?thesis using sz by (simp add: valid_section_def P_def)
qed

lemma source_column_inverse:
  assumes v: "valid_section sec" and S: "S = nat (section_size sec)"
  shows "source_column S (section_pattern sec)
           (source_column S (inverse_pattern (section_pattern sec)) x) = x"
proof -
  define P where "P = section_pattern sec"
  have len: "length P = S" and S0: "S \<noteq> 0"
    using v S by (auto simp: valid_section_def P_def)
  have set: "set P = {1..int S}" using valid_section_set[OF v] v S by (simp add: P_def valid_section_def)
  let ?j = "x mod S"
  have j: "?j < S" using S0 by simp
  hence mem: "int ?j + 1 \<in> set P" using set by simp
  let ?q = "position (int ?j + 1) P"
  have q: "?q < S" using position_less[OF mem] len by simp
  have "source_column S (inverse_pattern P) x = (x div S) * S + ?q"
    using j len by (simp add: source_column_def inverse_pattern_nth)
  hence "source_column S P (source_column S (inverse_pattern P) x)
           = (x div S) * S + nat (P ! ?q - 1)"
    using source_column_slice[OF q, of P "x div S"] by simp
  also have "\<dots> = (x div S) * S + ?j" using nth_position[OF mem] by simp
  also have "\<dots> = x" by simp
  finally show ?thesis unfolding P_def .
qed

lemma bit_length_bounds:
  "0 < n \<Longrightarrow> 2 ^ (bit_length n - 1) \<le> n \<and> n < 2 ^ bit_length n"
proof (induction n rule: bit_length.induct)
  case (1 n)
  show ?case
  proof (cases "n div 2 \<le> 0")
    case True
    hence "n = 1" using "1.prems" by linarith
    thus ?thesis by (simp add: bit_length.simps[of 1] bit_length.simps[of 0])
  next
    case False
    hence pos: "0 < n div 2" by simp
    define b where "b = bit_length (n div 2)"
    have ih: "2 ^ (b - 1) \<le> n div 2" "n div 2 < 2 ^ b"
      using "1.IH" "1.prems" pos by (simp_all add: b_def)
    have b1: "1 \<le> b" using pos unfolding b_def by (subst bit_length.simps) simp
    have bl: "bit_length n = Suc b" using "1.prems" unfolding b_def by (subst bit_length.simps) simp
    have "(2::int) ^ b = 2 * 2 ^ (b - 1)" using b1 by (cases b) simp_all
    hence lo: "2 ^ b \<le> n" using ih(1) by linarith
    have "n div 2 + 1 \<le> 2 ^ b" using ih(2) by simp
    hence hi: "n < 2 * 2 ^ b" by linarith
    show ?thesis using lo hi by (simp add: bl)
  qed
qed

lemma bit_length_pos: "0 < n \<Longrightarrow> 0 < bit_length n"
  by (subst bit_length.simps) simp

lemma binade_bounds:
  assumes "0 < x"
  shows "2 powi binade x \<le> x \<and> x < 2 powi (binade x + 1)"
proof (cases "1 \<le> x")
  case True
  define n where "n = \<lfloor>x\<rfloor>"
  have n: "0 < n" using True by (simp add: n_def)
  define b where "b = bit_length n"
  have b: "0 < b" using bit_length_pos[OF n] by (simp add: b_def)
  from bit_length_bounds[OF n] have bd: "2 ^ (b - 1) \<le> n" "n < 2 ^ b" by (simp_all add: b_def)
  have e: "binade x = int (b - 1)" using True b by (simp add: binade_def n_def b_def)
  have "(of_int (2 ^ (b - 1)) :: rat) \<le> of_int n" using bd(1) by (simp only: of_int_le_iff)
  also have "\<dots> \<le> x" by (simp add: n_def)
  finally have lo: "2 powi binade x \<le> x" by (simp add: e)
  have "x < of_int (n + 1)" unfolding n_def by linarith
  also have "\<dots> \<le> of_int (2 ^ b)" using bd(2) by (simp only: of_int_le_iff)
  finally have "x < 2 ^ b" by simp
  moreover have "binade x + 1 = int b" using e b by simp
  ultimately have "x < 2 powi (binade x + 1)" by simp
  with lo show ?thesis by simp
next
  case False
  hence x1: "x < 1" by simp
  define y where "y = 1 / x"
  have y1: "1 < y" using assms x1 by (simp add: y_def)
  define n where "n = \<lceil>y\<rceil> - 1"
  have n: "0 < n" using y1 unfolding n_def by linarith
  define k where "k = bit_length n"
  have k: "0 < k" using bit_length_pos[OF n] by (simp add: k_def)
  from bit_length_bounds[OF n] have bd: "2 ^ (k - 1) \<le> n" "n < 2 ^ k" by (simp_all add: k_def)
  have e: "binade x = - int k" using False by (simp add: binade_def y_def n_def k_def)
  have "y \<le> of_int (n + 1)" unfolding n_def by simp
  also have "\<dots> \<le> of_int (2 ^ k)" using bd(2) by (simp only: of_int_le_iff)
  finally have yk: "y \<le> 2 ^ k" by simp
  have "1 / (2 ^ k :: rat) \<le> 1 / y" using yk y1 by (intro divide_left_mono) simp_all
  hence "1 / 2 ^ k \<le> x" using assms by (simp add: y_def)
  hence lo: "2 powi binade x \<le> x" by (simp add: e power_int_minus inverse_eq_divide)
  have "(of_int (2 ^ (k - 1)) :: rat) \<le> of_int n" using bd(1) by (simp only: of_int_le_iff)
  also have "\<dots> < y" unfolding n_def by linarith
  finally have "(2 ^ (k - 1) :: rat) < y" by simp
  hence "1 / y < 1 / (2 ^ (k - 1) :: rat)" using y1 by (intro divide_strict_left_mono) simp_all
  hence "x < 1 / 2 ^ (k - 1)" using assms by (simp add: y_def)
  moreover have "binade x + 1 = - int (k - 1)" using e k by simp
  ultimately have "x < 2 powi (binade x + 1)"
    by (simp add: power_int_minus inverse_eq_divide del: of_nat_diff)
  with lo show ?thesis by simp
qed

lemma binade_mono:
  assumes "0 < x" and "x \<le> y"
  shows "binade x \<le> binade y"
proof (rule ccontr)
  assume "\<not> binade x \<le> binade y"
  hence "binade y + 1 \<le> binade x" by simp
  hence "(2::rat) powi (binade y + 1) \<le> 2 powi binade x" by (intro power_int_increasing) simp_all
  moreover have "y < 2 powi (binade y + 1)" using binade_bounds[of y] assms by simp
  moreover have "2 powi binade x \<le> x" using binade_bounds[OF assms(1)] by simp
  ultimately show False using assms(2) by simp
qed

lemma nearest_even_floor: "\<lfloor>t\<rfloor> \<le> nearest_even t \<and> nearest_even t \<le> \<lfloor>t\<rfloor> + 1"
  by (simp add: nearest_even_def Let_def)

lemma nearest_even_of_int [simp]: "nearest_even (of_int k) = k"
  by (simp add: nearest_even_def)

lemma nearest_even_mono:
  assumes "t \<le> t'"
  shows "nearest_even t \<le> nearest_even t'"
proof (cases "\<lfloor>t\<rfloor> = \<lfloor>t'\<rfloor>")
  case True
  thus ?thesis using assms by (simp add: nearest_even_def Let_def)
next
  case False
  hence "\<lfloor>t\<rfloor> + 1 \<le> \<lfloor>t'\<rfloor>" using floor_mono[OF assms] by simp
  thus ?thesis using nearest_even_floor[of t] nearest_even_floor[of t'] by linarith
qed

lemma round_double_pos_eq:
  "0 < x \<Longrightarrow> round_double x = of_int (nearest_even (x / 2 powi (binade x - 52))) * 2 powi (binade x - 52)"
  by (simp add: round_double_def Let_def)

lemma scaled_bounds:
  assumes "0 < x"
  shows "2 ^ 52 \<le> x / 2 powi (binade x - 52) \<and> x / 2 powi (binade x - 52) \<le> 2 ^ 53"
proof -
  define e where "e = binade x"
  have u: "(0::rat) < 2 powi (e - 52)" by simp
  have a: "(2::rat) powi e = 2 ^ 52 * 2 powi (e - 52)"
    using power_int_add[of "2::rat" 52 "e - 52"] by simp
  have b: "(2::rat) powi (e + 1) = 2 ^ 53 * 2 powi (e - 52)"
    using power_int_add[of "2::rat" 53 "e - 52"] by (simp add: add.commute)
  have "2 ^ 52 * 2 powi (e - 52) \<le> x" "x \<le> 2 ^ 53 * 2 powi (e - 52)"
    using binade_bounds[OF assms] a b by (simp_all add: e_def)
  thus ?thesis using u unfolding e_def[symmetric] by (simp add: pos_le_divide_eq pos_divide_le_eq)
qed

lemma round_double_bounds:
  assumes "0 < x"
  shows "2 powi binade x \<le> round_double x \<and> round_double x \<le> 2 powi (binade x + 1)"
proof -
  define e where "e = binade x"
  define t where "t = x / 2 powi (e - 52)"
  have u: "(0::rat) < 2 powi (e - 52)" by simp
  have t: "of_int (2 ^ 52) \<le> t" "t \<le> of_int (2 ^ 53)"
    using scaled_bounds[OF assms] by (simp_all add: t_def e_def)
  have "nearest_even (of_int (2 ^ 52)) \<le> nearest_even t"
    using t(1) by (rule nearest_even_mono)
  moreover have "nearest_even t \<le> nearest_even (of_int (2 ^ 53))"
    using t(2) by (rule nearest_even_mono)
  ultimately have n: "2 ^ 52 \<le> nearest_even t" "nearest_even t \<le> 2 ^ 53" by (simp_all only: nearest_even_of_int)
  have nr: "(2 ^ 52 :: rat) \<le> of_int (nearest_even t)" "(of_int (nearest_even t) :: rat) \<le> 2 ^ 53"
    using n by (metis of_int_le_iff of_int_numeral of_int_power)+
  have a: "(2::rat) powi e = 2 ^ 52 * 2 powi (e - 52)"
    using power_int_add[of "2::rat" 52 "e - 52"] by simp
  have b: "(2::rat) powi (e + 1) = 2 ^ 53 * 2 powi (e - 52)"
    using power_int_add[of "2::rat" 53 "e - 52"] by (simp add: add.commute)
  have "(2::rat) powi e \<le> of_int (nearest_even t) * 2 powi (e - 52)"
    unfolding a using nr(1) u by (intro mult_right_mono) simp_all
  moreover have "of_int (nearest_even t) * 2 powi (e - 52) \<le> (2::rat) powi (e + 1)"
    unfolding b using nr(2) u by (intro mult_right_mono) simp_all
  ultimately show ?thesis using assms by (simp add: round_double_pos_eq t_def e_def)
qed

lemma round_double_positive: "0 < x \<Longrightarrow> 0 < round_double x"
  using round_double_bounds[of x] zero_less_power_int[of "2::rat" "binade x"]
  by (meson less_le_trans zero_less_numeral)

lemma round_double_mono:
  assumes "0 \<le> x" and "x \<le> y"
  shows "round_double x \<le> round_double y"
proof (cases "x = 0")
  case True
  show ?thesis
  proof (cases "y = 0")
    case True
    thus ?thesis using \<open>x = 0\<close> by simp
  next
    case False
    hence "0 < round_double y" using assms True by (intro round_double_positive) simp
    thus ?thesis using True by (simp add: round_double_def)
  qed
next
  case False
  hence x: "0 < x" and y: "0 < y" using assms by simp_all
  show ?thesis
  proof (cases "binade x = binade y")
    case True
    have "x / 2 powi (binade y - 52) \<le> y / 2 powi (binade y - 52)"
      using assms(2) by (intro divide_right_mono) simp_all
    hence "nearest_even (x / 2 powi (binade y - 52)) \<le> nearest_even (y / 2 powi (binade y - 52))"
      by (rule nearest_even_mono)
    hence "(of_int (nearest_even (x / 2 powi (binade y - 52))) :: rat)
             \<le> of_int (nearest_even (y / 2 powi (binade y - 52)))" by simp
    hence "of_int (nearest_even (x / 2 powi (binade y - 52))) * 2 powi (binade y - 52)
             \<le> of_int (nearest_even (y / 2 powi (binade y - 52))) * (2::rat) powi (binade y - 52)"
      by (intro mult_right_mono) simp_all
    thus ?thesis using x y True by (simp add: round_double_pos_eq)
  next
    case False
    hence "binade x + 1 \<le> binade y" using binade_mono[OF x assms(2)] by simp
    hence "(2::rat) powi (binade x + 1) \<le> 2 powi binade y" by (intro power_int_increasing) simp_all
    thus ?thesis using round_double_bounds[OF x] round_double_bounds[OF y] by linarith
  qed
qed

lemma round_double_int_exact:
  assumes "0 \<le> v" and "v \<le> 2 ^ 53"
  shows "round_double (of_int v) = of_int v"
proof (cases "v = 0")
  case True
  thus ?thesis by (simp add: round_double_def)
next
  case False
  hence v: "0 < v" using assms by simp
  define x :: rat where "x = of_int v"
  have x: "0 < x" "1 \<le> x" using v by (simp_all add: x_def)
  define e where "e = binade x"
  have "0 < \<lfloor>x\<rfloor>" using x(2) by simp
  hence e0: "0 \<le> e" using x(2) bit_length_pos[of "\<lfloor>x\<rfloor>"] by (simp add: e_def binade_def)
  have "2 powi e \<le> x" using binade_bounds[OF x(1)] by (simp add: e_def)
  moreover have "x \<le> 2 ^ 53" using assms(2) unfolding x_def
    by (metis of_int_le_iff of_int_numeral of_int_power)
  ultimately have "(2::rat) powi e \<le> 2 powi 53" by simp
  have e53: "e \<le> 53"
  proof (rule ccontr)
    assume "\<not> e \<le> 53"
    hence "(2::rat) powi 53 < 2 powi e" by (intro power_int_strict_increasing) simp_all
    thus False using \<open>(2::rat) powi e \<le> 2 powi 53\<close> by simp
  qed
  show ?thesis
  proof (cases "e = 53")
    case True
    have "x = 2 ^ 53" using \<open>2 powi e \<le> x\<close> \<open>x \<le> 2 ^ 53\<close> True by simp
    hence "x = 9007199254740992" by simp
    moreover have "round_double 9007199254740992 = 9007199254740992" by code_simp
    ultimately show ?thesis unfolding x_def by simp
  next
    case False
    hence le: "e \<le> 52" using e53 by simp
    define k where "k = nat (52 - e)"
    have ek: "e - 52 = - int k" using le by (simp add: k_def)
    have u: "(2::rat) powi (e - 52) = 1 / 2 ^ k" by (simp add: ek power_int_minus inverse_eq_divide)
    have "x / 2 powi (e - 52) = of_int (v * 2 ^ k)" by (simp add: u x_def)
    hence ne: "nearest_even (x / 2 powi (e - 52)) = v * 2 ^ k" by (simp only: nearest_even_of_int)
    have "round_double x = of_int (nearest_even (x / 2 powi (e - 52))) * 2 powi (e - 52)"
      using round_double_pos_eq[OF x(1)] by (simp only: e_def)
    also have "\<dots> = of_int (v * 2 ^ k) * 2 powi (e - 52)" by (simp only: ne)
    also have "\<dots> = of_int (v * 2 ^ k) * (1 / 2 ^ k)" by (simp only: u)
    also have "\<dots> = x" by (simp add: x_def)
    finally show ?thesis by (simp only: x_def)
  qed
qed

lemma round_double_one: "round_double 1 = 1"
  by code_simp

lemma round_double_hundred: "round_double 100 = 100"
  by code_simp

lemma slice_reports_eq:
  "slice_reports n =
     map (\<lambda>i. round_double (round_double (of_nat (i + 1) / of_nat n) * 100)) [0..<n]"
  by (simp add: slice_reports_def)

lemma percent_mono:
  assumes "0 \<le> p" and "p \<le> q"
  shows "round_double (round_double p * 100) \<le> round_double (round_double q * 100)"
proof -
  have a: "round_double p \<le> round_double q" using assms by (rule round_double_mono)
  have "round_double 0 \<le> round_double p" using assms(1) by (intro round_double_mono) simp_all
  hence b: "0 \<le> round_double p" by (simp add: round_double_def)
  show ?thesis using a b by (intro round_double_mono) simp_all
qed

lemma percent_range:
  assumes "0 < p" and "p \<le> 1"
  shows "0 < round_double (round_double p * 100) \<and> round_double (round_double p * 100) \<le> 100"
proof -
  have pos: "0 < round_double p" using assms(1) by (rule round_double_positive)
  hence "0 < round_double (round_double p * 100)" by (intro round_double_positive) simp
  moreover have "round_double (round_double p * 100) \<le> round_double (round_double 1 * 100)"
    using assms by (intro percent_mono) simp_all
  ultimately show ?thesis by (simp add: round_double_one round_double_hundred)
qed

lemma slice_reports_range:
  assumes "v \<in> set (slice_reports n)"
  shows "0 < v \<and> v \<le> 100"
proof -
  from assms obtain i where i: "i < n"
    and v: "v = round_double (round_double (of_nat (i + 1) / of_nat n) * 100)"
    by (auto simp: slice_reports_eq)
  define q :: rat where "q = of_nat (i + 1) / of_nat n"
  have "(of_nat (i + 1) :: rat) \<le> of_nat n" using i by simp
  hence "q \<le> 1" using i by (simp add: q_def divide_le_eq)
  moreover have "0 < q" using i by (simp add: q_def)
  ultimately show ?thesis using percent_range[of q] v by (simp only: q_def)
qed

lemma slice_reports_sorted: "sorted (slice_reports n)"
proof -
  have "round_double (round_double (of_nat (i + 1) / of_nat n) * 100)
          \<le> round_double (round_double (of_nat (j + 1) / of_nat n) * 100)"
    if "i < j" for i j
  proof (rule percent_mono)
    show "(0::rat) \<le> of_nat (i + 1) / of_nat n" by simp
    show "(of_nat (i + 1) :: rat) / of_nat n \<le> of_nat (j + 1) / of_nat n"
      using that by (intro divide_right_mono) simp_all
  qed
  hence "sorted_wrt (\<lambda>i j. round_double (round_double (of_nat (i + 1) / of_nat n) * 100)
          \<le> round_double (round_double (of_nat (j + 1) / of_nat n) * 100)) [0..<n]"
    by (intro sorted_wrt_mono_rel[OF _ sorted_wrt_upt]) simp
  thus ?thesis by (simp only: slice_reports_eq sorted_map)
qed

lemma slice_reports_last:
  assumes "0 < n"
  shows "last (slice_reports n) = 100"
proof -
  from assms obtain m where n: "n = Suc m" by (cases n) simp_all
  have nz: "(of_nat (Suc m) :: rat) \<noteq> 0" by (simp del: of_nat_Suc)
  have "last (slice_reports n)
          = round_double (round_double (of_nat (Suc m) / of_nat (Suc m)) * 100)"
    unfolding slice_reports_eq n by (simp del: of_nat_Suc)
  also have "of_nat (Suc m) / of_nat (Suc m) = (1::rat)" using nz by (simp del: of_nat_Suc)
  finally show ?thesis by (simp add: round_double_one round_double_hundred)
qed

lemma slice_reports_three:
  "slice_reports 3 = [2345624805922133 / 70368744177664, 2345624805922133 / 35184372088832, 100]"
  by code_simp

lemma processImage_swap_run:
  "processImage [[1, 2, 3, 4, 5, 6, 7, 8]] (Some \<lparr>width = 2, height = 1, data = 0\<rparr>)
     (Some \<lparr>section_id = ''1'', section_name = ''swap'', section_size = 2,
            section_pattern = [2, 1], created_at = ''''\<rparr>)
   = Some (\<lparr>outcome = Completed \<lparr>width = 2, height = 1, data = 1\<rparr>, progress_calls = [0, 100, 0]\<rparr>,
           [[1, 2, 3, 4, 5, 6, 7, 8], [5, 6, 7, 8, 1, 2, 3, 4]])"
  unfolding processImage_def
  apply (subst slice_loop.simps)
  apply (subst slice_loop.simps)
  apply code_simp
  done

section \<open>Outside the valid inputs\<close>

text \<open>
  With size 0 the bound of the slice loop is \<open>Infinity\<close> and no row ever throws, so the
  call never returns. A pattern with fewer entries than its size makes the second inner
  loop read \<open>pattern[x]\<close> past the end, and the run fails with a \<open>TypeError\<close>. A valid
  section is one whose pattern is a permutation of \<open>1..size\<close>.
\<close>

lemma for_each_skip:
  assumes "\<And>h x. body h x = Normal h"
  shows "for_each body xs h = Normal h"
  by (induction xs) (simp_all add: assms)

lemma process_slice_zero: "process_slice src newData w hg 0 pat sl h = Normal h"
  unfolding process_slice_def process_row_def
  by (rule for_each_skip) simp

lemma slice_loop_Infinity: "slice_loop src newData w hg 0 pat Infinity sl h reported = None"
proof (rule ccontr)
  assume "slice_loop src newData w hg 0 pat Infinity sl h reported \<noteq> None"
  then obtain res where r: "slice_loop src newData w hg 0 pat Infinity sl h reported = Some res"
    by blast
  have "(0::nat) = 0 \<and> Infinity = Infinity \<longrightarrow> False"
  proof (rule slice_loop.raw_induct
      [where P = "\<lambda>src newData w hg S pat n sl h reported res. S = 0 \<and> n = Infinity \<longrightarrow> False",
       OF _ r], goal_cases)
    case (1 slice_loop src newData w hg S pat n sl h reported res)
    show ?case
    proof
      assume a: "S = 0 \<and> n = Infinity"
      hence "slice_loop src newData w hg S pat n (sl + 1) h (reported @ [progress_value sl n]) = Some res"
        using 1(2) by (simp add: process_slice_zero)
      from 1(1)[OF this] a show False by simp
    qed
  qed
  thus False by simp
qed

lemma processImage_zero_size:
  assumes "width img \<noteq> 0" and "height img \<noteq> 0" and "section_size sec = 0"
  shows "processImage h (Some img) (Some sec) = None"
  using assms by (simp add: processImage_def numCompleteSlices_def slice_loop_Infinity)

lemma processImage_short_pattern_run:
  "processImage [[1, 2, 3, 4, 5, 6, 7, 8]] (Some \<lparr>width = 2, height = 1, data = 0\<rparr>)
     (Some \<lparr>section_id = ''1'', section_name = ''short'', section_size = 2,
            section_pattern = [2], created_at = ''''\<rparr>)
   = Some (\<lparr>outcome = Failed TypeError, progress_calls = [0, 0]\<rparr>,
           [[1, 2, 3, 4, 5, 6, 7, 8], [5, 6, 7, 8, 5, 6, 7, 8]])"
  unfolding processImage_def
  apply (subst slice_loop.simps)
  apply code_simp
  done

lemma valid_section_permutation:
  "valid_section sec \<longleftrightarrow>
     1 \<le> section_size sec \<and> mset (section_pattern sec) = mset [1..section_size sec]"
proof
  assume v: "valid_section sec"
  have "mset (section_pattern sec) = mset [1..section_size sec]"
    using v valid_section_set[OF v]
    by (intro set_eq_iff_mset_eq_distinct[THEN iffD1]) (simp_all add: valid_section_def)
  thus "1 \<le> section_size sec \<and> mset (section_pattern sec) = mset [1..section_size sec]"
    using v by (simp add: valid_section_def)
next
  assume a: "1 \<le> section_size sec \<and> mset (section_pattern sec) = mset [1..section_size sec]"
  hence m: "mset (section_pattern sec) = mset [1..section_size sec]" by simp
  have "distinct (section_pattern sec)"
    using mset_eq_imp_distinct_iff[OF m] by simp
  moreover have "set (section_pattern sec) = {1..section_size sec}"
    using mset_eq_setD[OF m] by simp
  moreover have "length (section_pattern sec) = nat (section_size sec)"
    using mset_eq_length[OF m] by simp
  ultimately show "valid_section sec" using a by (auto simp: valid_section_def list_all_iff)
qed

section \<open>The claims about processImage\<close>

text \<open>
  Claim C1. On a well-formed image and a pattern that is a permutation of \<open>1..S\<close>, the run
  completes, and for every complete slice \<open>i\<close>, row \<open>y\<close> and offset \<open>j < S\<close> the output pixel
  at column \<open>i * S + j\<close> is the input pixel at column \<open>i * S + (pattern[j] - 1)\<close> of the same
  row, all four bytes. The witness is the scenario of the specification: size 3, pattern
  \<open>[3, 1, 2]\<close>, row \<open>[A, B, C]\<close> gives \<open>[C, A, B]\<close>.
\<close>

theorem processImage_gather:
  assumes "valid_image h img" and "valid_section sec"
  shows "\<exists>r h' out. processImage h (Some img) (Some sec) = Some (r, h') \<and> outcome r = Completed out \<and>
           (\<forall>i < width img div nat (section_size sec). \<forall>y < height img. \<forall>j < nat (section_size sec).
              pixel_at h' out (i * nat (section_size sec) + j) y =
              pixel_at h img (i * nat (section_size sec) + nat (section_pattern sec ! j - 1)) y)"
proof -
  define S where "S = nat (section_size sec)"
  have sz: "1 \<le> section_size sec" using assms(2) by (simp add: valid_section_def)
  from processImage_pixels[OF assms(1) sz valid_section_fits[OF assms(2)]]
  obtain cur where
    run: "processImage h (Some img) (Some sec) =
           Some (\<lparr>outcome = Completed \<lparr>width = width img, height = height img, data = length h\<rparr>,
                  progress_calls =
                    0 # map (\<lambda>i. progress_value i (Finite (int (width img div S))))
                          [0..<width img div S] @ [0]\<rparr>,
                 h @ [cur])"
    and px: "\<And>x y. x < width img \<Longrightarrow> y < height img \<Longrightarrow>
              pixel_at (h @ [cur]) \<lparr>width = width img, height = height img, data = length h\<rparr> x y
                = pixel_at h img (if x < (width img div S) * S
                     then source_column S (section_pattern sec) x else x) y"
    unfolding S_def by blast
  have "pixel_at (h @ [cur]) \<lparr>width = width img, height = height img, data = length h\<rparr> (i * S + j) y
          = pixel_at h img (i * S + nat (section_pattern sec ! j - 1)) y"
    if i: "i < width img div S" and y: "y < height img" and j: "j < S" for i y j
  proof -
    have "i * S + j < Suc i * S" using j by simp
    also have "\<dots> \<le> (width img div S) * S" using i by (intro mult_le_mono1) simp
    finally have lt: "i * S + j < (width img div S) * S" .
    hence "i * S + j < width img" by (rule less_le_trans) simp
    from px[OF this y] lt show ?thesis by (simp add: source_column_slice[OF j])
  qed
  thus ?thesis using run unfolding S_def by simp
qed

theorem processImage_gather_witness:
  "valid_image [[1, 2, 3, 4, 5, 6, 7, 8, 9, 10, 11, 12]] \<lparr>width = 3, height = 1, data = 0\<rparr> \<and>
   valid_section \<lparr>section_id = ''1'', section_name = ''weave'', section_size = 3,
                   section_pattern = [3, 1, 2], created_at = ''''\<rparr> \<and>
   (\<exists>r h' out. processImage [[1, 2, 3, 4, 5, 6, 7, 8, 9, 10, 11, 12]]
                  (Some \<lparr>width = 3, height = 1, data = 0\<rparr>)
                  (Some \<lparr>section_id = ''1'', section_name = ''weave'', section_size = 3,
                         section_pattern = [3, 1, 2], created_at = ''''\<rparr>) = Some (r, h') \<and>
      outcome r = Completed out \<and>
      pixel_at h' out 0 0 = (Some 9, Some 10, Some 11, Some 12) \<and>
      pixel_at h' out 1 0 = (Some 1, Some 2, Some 3, Some 4) \<and>
      pixel_at h' out 2 0 = (Some 5, Some 6, Some 7, Some 8))"
proof -
  let ?h = "[[1, 2, 3, 4, 5, 6, 7, 8, 9, 10, 11, 12]] :: store"
  let ?img = "\<lparr>width = 3, height = 1, data = 0\<rparr>"
  let ?sec = "\<lparr>section_id = ''1'', section_name = ''weave'', section_size = 3,
                   section_pattern = [3, 1, 2], created_at = ''''\<rparr>"
  have vi: "valid_image ?h ?img" by (simp add: valid_image_def)
  have vs: "valid_section ?sec" by (simp add: valid_section_def)
  from processImage_gather[OF vi vs] obtain r h' out where
    run: "processImage ?h (Some ?img) (Some ?sec) = Some (r, h')" "outcome r = Completed out"
    and px: "\<And>i y j. i < 1 \<Longrightarrow> y < 1 \<Longrightarrow> j < 3 \<Longrightarrow>
              pixel_at h' out (i * 3 + j) y = pixel_at ?h ?img (i * 3 + nat ([3, 1, 2] ! j - 1)) y"
    by auto
  have "pixel_at h' out 0 0 = (Some 9, Some 10, Some 11, Some 12)"
    using px[of 0 0 0] by (simp add: pixel_at_def pixelIndex_def rd_def ta_get_def)
  moreover have "pixel_at h' out 1 0 = (Some 1, Some 2, Some 3, Some 4)"
    using px[of 0 0 1] by (simp add: pixel_at_def pixelIndex_def rd_def ta_get_def)
  moreover have "pixel_at h' out 2 0 = (Some 5, Some 6, Some 7, Some 8)"
    using px[of 0 0 2] by (simp add: pixel_at_def pixelIndex_def rd_def ta_get_def)
  ultimately show ?thesis using vi vs run by blast
qed

text \<open>
  Claim C2. When \<open>width = size * n + r\<close> with \<open>0 < r < size\<close>, the run completes and the
  columns from \<open>size * n\<close> on, the rightmost \<open>r\<close>, hold in every row the same four bytes as
  in the input, whatever the pattern.
\<close>

theorem processImage_partial_slice:
  assumes "valid_image h img" and "valid_section sec"
    and "width img = nat (section_size sec) * n + r" and "0 < r" and "r < nat (section_size sec)"
  shows "\<exists>p h' out. processImage h (Some img) (Some sec) = Some (p, h') \<and> outcome p = Completed out \<and>
           width out = width img \<and> height out = height img \<and>
           (\<forall>x y. nat (section_size sec) * n \<le> x \<and> x < width img \<and> y < height img \<longrightarrow>
              pixel_at h' out x y = pixel_at h img x y)"
proof -
  define S where "S = nat (section_size sec)"
  have sz: "1 \<le> section_size sec" using assms(2) by (simp add: valid_section_def)
  have N: "width img div S = n" using assms(3,5) by (simp add: S_def)
  from processImage_pixels[OF assms(1) sz valid_section_fits[OF assms(2)]]
  obtain cur where
    run: "processImage h (Some img) (Some sec) =
           Some (\<lparr>outcome = Completed \<lparr>width = width img, height = height img, data = length h\<rparr>,
                  progress_calls =
                    0 # map (\<lambda>i. progress_value i (Finite (int (width img div S))))
                          [0..<width img div S] @ [0]\<rparr>,
                 h @ [cur])"
    and px: "\<And>x y. x < width img \<Longrightarrow> y < height img \<Longrightarrow>
              pixel_at (h @ [cur]) \<lparr>width = width img, height = height img, data = length h\<rparr> x y
                = pixel_at h img (if x < (width img div S) * S
                     then source_column S (section_pattern sec) x else x) y"
    unfolding S_def by blast
  have "pixel_at (h @ [cur]) \<lparr>width = width img, height = height img, data = length h\<rparr> x y
          = pixel_at h img x y"
    if "S * n \<le> x" "x < width img" "y < height img" for x y
    using px[OF that(2,3)] that(1) N by (simp add: mult.commute)
  thus ?thesis using run unfolding S_def by simp
qed

theorem processImage_partial_slice_witness:
  "valid_image [[1, 2, 3, 4, 5, 6, 7, 8, 9, 10, 11, 12, 13, 14, 15, 16]]
     \<lparr>width = 4, height = 1, data = 0\<rparr> \<and>
   valid_section \<lparr>section_id = ''1'', section_name = ''weave'', section_size = 3,
                   section_pattern = [3, 1, 2], created_at = ''''\<rparr> \<and>
   (4::nat) = nat 3 * 1 + 1 \<and> (0::nat) < 1 \<and> (1::nat) < nat 3 \<and>
   (\<exists>p h' out. processImage [[1, 2, 3, 4, 5, 6, 7, 8, 9, 10, 11, 12, 13, 14, 15, 16]]
                  (Some \<lparr>width = 4, height = 1, data = 0\<rparr>)
                  (Some \<lparr>section_id = ''1'', section_name = ''weave'', section_size = 3,
                         section_pattern = [3, 1, 2], created_at = ''''\<rparr>) = Some (p, h') \<and>
      outcome p = Completed out \<and>
      pixel_at h' out 3 0 = (Some 13, Some 14, Some 15, Some 16))"
proof -
  let ?h = "[[1, 2, 3, 4, 5, 6, 7, 8, 9, 10, 11, 12, 13, 14, 15, 16]] :: store"
  let ?img = "\<lparr>width = 4, height = 1, data = 0\<rparr>"
  let ?sec = "\<lparr>section_id = ''1'', section_name = ''weave'', section_size = 3,
                   section_pattern = [3, 1, 2], created_at = ''''\<rparr>"
  have vi: "valid_image ?h ?img" by (simp add: valid_image_def)
  have vs: "valid_section ?sec" by (simp add: valid_section_def)
  from processImage_partial_slice[OF vi vs, of 1 1] obtain p h' out where
    run: "processImage ?h (Some ?img) (Some ?sec) = Some (p, h')" "outcome p = Completed out"
    and px: "\<And>x y. 3 \<le> x \<Longrightarrow> x < 4 \<Longrightarrow> y < 1 \<Longrightarrow> pixel_at h' out x y = pixel_at ?h ?img x y"
    by auto
  have "pixel_at h' out 3 0 = (Some 13, Some 14, Some 15, Some 16)"
    using px[of 3 0] by (simp add: pixel_at_def pixelIndex_def rd_def ta_get_def)
  thus ?thesis using vi vs run by simp
qed

text \<open>
  Claim C6. With the identity pattern \<open>[1, 2, ..., size]\<close>, for every well-formed image and
  every \<open>size \<ge> 1\<close>, the run completes and the array of the result is equal, byte for byte,
  to the array of the input; width and height are the same.
\<close>

theorem processImage_identity:
  assumes "valid_image h img" and "1 \<le> section_size sec"
    and "section_pattern sec = [1..section_size sec]"
  shows "\<exists>r h' out. processImage h (Some img) (Some sec) = Some (r, h') \<and> outcome r = Completed out \<and>
           width out = width img \<and> height out = height img \<and> h' ! data out = h ! data img"
proof -
  define S where "S = nat (section_size sec)"
  have S: "S \<noteq> 0" "section_size sec = int S" using assms(2) by (simp_all add: S_def)
  have pat: "section_pattern sec = [1..int S]" using assms(3) S by simp
  have fits: "pattern_fits (nat (section_size sec)) (section_pattern sec)"
    using identity_pattern_fits[of S] pat S_def by simp
  have lenD: "length (h ! data img) = 4 * width img * height img"
    using assms(1) by (simp add: valid_image_def)
  from processImage_gathered[OF assms(1,2) fits] obtain cur where
    run: "processImage h (Some img) (Some sec) =
           Some (\<lparr>outcome = Completed \<lparr>width = width img, height = height img, data = length h\<rparr>,
                  progress_calls =
                    0 # map (\<lambda>i. progress_value i (Finite (int (width img div S))))
                          [0..<width img div S] @ [0]\<rparr>,
                 h @ [cur])"
    and g: "gathered (h ! data img) (width img) (height img) (source_column S [1..int S])
             (\<lambda>x y. x < (width img div S) * S) cur"
    unfolding S_def[symmetric] pat by blast
  have "cur = h ! data img"
    using g lenD by (rule gathered_same) (simp add: source_column_identity[OF S(1)])
  thus ?thesis using run by simp
qed

theorem processImage_identity_witness:
  "valid_image [[1, 2, 3, 4, 5, 6, 7, 8, 9, 10, 11, 12, 13, 14, 15, 16]]
     \<lparr>width = 4, height = 1, data = 0\<rparr> \<and>
   (\<exists>r h' out. processImage [[1, 2, 3, 4, 5, 6, 7, 8, 9, 10, 11, 12, 13, 14, 15, 16]]
                  (Some \<lparr>width = 4, height = 1, data = 0\<rparr>)
                  (Some \<lparr>section_id = ''1'', section_name = ''plain'', section_size = 3,
                         section_pattern = [1, 2, 3], created_at = ''''\<rparr>) = Some (r, h') \<and>
      outcome r = Completed out \<and>
      h' ! data out = [1, 2, 3, 4, 5, 6, 7, 8, 9, 10, 11, 12, 13, 14, 15, 16])"
proof -
  let ?h = "[[1, 2, 3, 4, 5, 6, 7, 8, 9, 10, 11, 12, 13, 14, 15, 16]] :: store"
  let ?img = "\<lparr>width = 4, height = 1, data = 0\<rparr>"
  let ?sec = "\<lparr>section_id = ''1'', section_name = ''plain'', section_size = 3,
                   section_pattern = [1, 2, 3], created_at = ''''\<rparr>"
  have vi: "valid_image ?h ?img" by (simp add: valid_image_def)
  have up: "[1..3] = [1, 2, 3::int]" by (simp add: upto.simps)
  from processImage_identity[of ?h ?img ?sec] vi up obtain r h' out where
    "processImage ?h (Some ?img) (Some ?sec) = Some (r, h')" "outcome r = Completed out"
    "h' ! data out = [1, 2, 3, 4, 5, 6, 7, 8, 9, 10, 11, 12, 13, 14, 15, 16]"
    by auto
  thus ?thesis using vi by blast
qed

text \<open>
  Claim C7. When the width is a multiple of the size and the pattern is a permutation of
  \<open>1..size\<close>, applying the pattern and then its inverse permutation to the result gives an
  image whose array is equal, byte for byte, to the array of the first input.
\<close>

theorem processImage_inverse:
  assumes "valid_image h img" and "valid_section sec"
    and "nat (section_size sec) dvd width img"
  shows "\<exists>r1 h1 out1 r2 h2 out2.
           processImage h (Some img) (Some sec) = Some (r1, h1) \<and> outcome r1 = Completed out1 \<and>
           processImage h1 (Some out1)
             (Some (sec\<lparr>section_pattern := inverse_pattern (section_pattern sec)\<rparr>)) = Some (r2, h2) \<and>
           outcome r2 = Completed out2 \<and>
           width out2 = width img \<and> height out2 = height img \<and>
           h2 ! data out2 = h ! data img"
proof -
  define S where "S = nat (section_size sec)"
  define w where "w = width img"
  define hg where "hg = height img"
  define D where "D = h ! data img"
  define P where "P = section_pattern sec"
  define sec' where "sec' = sec\<lparr>section_pattern := inverse_pattern P\<rparr>"
  define N where "N = w div S"
  have sz: "1 \<le> section_size sec" using assms(2) by (simp add: valid_section_def)
  have S0: "S \<noteq> 0" using sz by (simp add: S_def)
  have NS: "N * S = w" using assms(3) by (simp add: N_def S_def w_def)
  have lenD: "length D = 4 * w * hg" and wh: "1 \<le> w" "1 \<le> hg"
    using assms(1) by (simp_all add: valid_image_def D_def w_def hg_def)
  have fits: "pattern_fits S P" using valid_section_fits[OF assms(2)] by (simp add: S_def P_def)
  have v': "valid_section sec'" using valid_section_inverse[OF assms(2)] by (simp add: sec'_def P_def)
  have sz': "section_size sec' = section_size sec" "section_pattern sec' = inverse_pattern P"
    by (simp_all add: sec'_def)
  have fits': "pattern_fits S (inverse_pattern P)"
    using valid_section_fits[OF v'] sz' by (simp add: S_def)
  let ?out1 = "\<lparr>width = w, height = hg, data = length h\<rparr>"
  from processImage_gathered[OF assms(1) sz valid_section_fits[OF assms(2)]]
  obtain c1 r1 where
    run1: "processImage h (Some img) (Some sec) = Some (r1, h @ [c1])" "outcome r1 = Completed ?out1"
    and g1: "gathered D w hg (source_column S P) (\<lambda>x y. x < N * S) c1"
    unfolding S_def[symmetric] w_def[symmetric] hg_def[symmetric] D_def[symmetric]
      P_def[symmetric] N_def[symmetric]
    by (metis run.select_convs(1))
  have len1: "length c1 = 4 * w * hg" using g1 lenD by (simp add: gathered_def)
  have vi1: "valid_image (h @ [c1]) ?out1" using wh len1 by (simp add: valid_image_def)
  from processImage_gathered[OF vi1, of sec'] sz sz' fits'
  obtain c2 r2 where
    run2: "processImage (h @ [c1]) (Some ?out1) (Some sec') = Some (r2, (h @ [c1]) @ [c2])"
      "outcome r2 = Completed \<lparr>width = w, height = hg, data = length (h @ [c1])\<rparr>"
    and g2: "gathered c1 w hg (source_column S (inverse_pattern P)) (\<lambda>x y. x < N * S) c2"
    unfolding S_def[symmetric] N_def[symmetric]
    by (auto simp: S_def[symmetric] N_def[symmetric])
  have "c2 = D"
  proof (rule nth_equalityI)
    show len2: "length c2 = length D" using g2 len1 lenD by (simp add: gathered_def)
    fix k assume "k < length c2"
    hence "k < 4 * w * hg" using len2 lenD by simp
    from offset_decompose[OF this] obtain x y c where
      xyc: "x < w" "y < hg" "c < 4" "k = (y * w + x) * 4 + c" by blast
    let ?x' = "source_column S (inverse_pattern P) x"
    have x': "?x' < w"
      using source_column_less[OF fits' S0, of x w] xyc(1) NS by (simp add: N_def)
    have "c2 ! k = c1 ! ((y * w + ?x') * 4 + c)"
      using g2 xyc NS unfolding gathered_def by auto
    also have "\<dots> = D ! ((y * w + source_column S P ?x') * 4 + c)"
      using g1 x' xyc(2,3) NS unfolding gathered_def by auto
    also have "\<dots> = D ! k"
      using source_column_inverse[OF assms(2) S_def, of x] xyc(4) by (simp add: P_def)
    finally show "c2 ! k = D ! k" .
  qed
  thus ?thesis using run1 run2 unfolding sec'_def P_def w_def hg_def D_def
    by (intro exI[of _ r1] exI[of _ "h @ [c1]"] exI[of _ ?out1] exI[of _ r2]
        exI[of _ "(h @ [c1]) @ [c2]"]
        exI[of _ "\<lparr>width = width img, height = height img, data = length (h @ [c1])\<rparr>"])
      (simp add: w_def hg_def nth_append)
qed

theorem processImage_inverse_witness:
  "valid_image [[1, 2, 3, 4, 5, 6, 7, 8, 9, 10, 11, 12]] \<lparr>width = 3, height = 1, data = 0\<rparr> \<and>
   valid_section \<lparr>section_id = ''1'', section_name = ''weave'', section_size = 3,
                   section_pattern = [3, 1, 2], created_at = ''''\<rparr> \<and>
   nat 3 dvd (3::nat) \<and> inverse_pattern [3, 1, 2] = [2, 3, 1] \<and>
   (\<exists>r1 h1 out1 r2 h2 out2.
      processImage [[1, 2, 3, 4, 5, 6, 7, 8, 9, 10, 11, 12]]
        (Some \<lparr>width = 3, height = 1, data = 0\<rparr>)
        (Some \<lparr>section_id = ''1'', section_name = ''weave'', section_size = 3,
               section_pattern = [3, 1, 2], created_at = ''''\<rparr>) = Some (r1, h1) \<and>
      outcome r1 = Completed out1 \<and>
      processImage h1 (Some out1)
        (Some \<lparr>section_id = ''1'', section_name = ''weave'', section_size = 3,
               section_pattern = [2, 3, 1], created_at = ''''\<rparr>) = Some (r2, h2) \<and>
      outcome r2 = Completed out2 \<and>
      h2 ! data out2 = [1, 2, 3, 4, 5, 6, 7, 8, 9, 10, 11, 12])"
proof -
  let ?h = "[[1, 2, 3, 4, 5, 6, 7, 8, 9, 10, 11, 12]] :: store"
  let ?img = "\<lparr>width = 3, height = 1, data = 0\<rparr>"
  let ?sec = "\<lparr>section_id = ''1'', section_name = ''weave'', section_size = 3,
                   section_pattern = [3, 1, 2], created_at = ''''\<rparr>"
  have vi: "valid_image ?h ?img" by (simp add: valid_image_def)
  have vs: "valid_section ?sec" by (simp add: valid_section_def)
  have inv: "inverse_pattern [3, 1, 2] = [2, 3, 1]" by code_simp
  have d: "nat 3 dvd (3::nat)" by simp
  from processImage_inverse[OF vi vs] d inv obtain r1 h1 out1 r2 h2 out2 where
    "processImage ?h (Some ?img) (Some ?sec) = Some (r1, h1)" "outcome r1 = Completed out1"
    "processImage h1 (Some out1)
        (Some \<lparr>section_id = ''1'', section_name = ''weave'', section_size = 3,
               section_pattern = [2, 3, 1], created_at = ''''\<rparr>) = Some (r2, h2)"
    "outcome r2 = Completed out2" "h2 ! data out2 = [1, 2, 3, 4, 5, 6, 7, 8, 9, 10, 11, 12]"
    by auto
  thus ?thesis using vi vs d inv by blast
qed

text \<open>
  Claim C8. Whatever the arguments, a run that returns leaves every array that existed
  before the call as it was, the array of the input among them. On a well-formed image
  and a valid pattern the run returns, and its result is an image of the same width and
  height whose array is a new one, at an address that the store did not have.
\<close>

theorem processImage_input_unchanged:
  "(processImage h oi os = Some (r, h') \<longrightarrow> take (length h) h' = h) \<and>
   (valid_image h img \<and> valid_section sec \<longrightarrow>
      (\<exists>p h2 out. processImage h (Some img) (Some sec) = Some (p, h2) \<and> outcome p = Completed out \<and>
         width out = width img \<and> height out = height img \<and>
         data out = length h \<and> length h2 = Suc (length h) \<and>
         h2 ! data img = h ! data img \<and> take (length h) h2 = h))"
proof (intro conjI impI)
  assume "processImage h oi os = Some (r, h')"
  thus "take (length h) h' = h" by (rule processImage_frame)
next
  assume v: "valid_image h img \<and> valid_section sec"
  hence sz: "1 \<le> section_size sec" by (simp add: valid_section_def)
  have src: "data img < length h" using v by (simp add: valid_image_def)
  from processImage_gathered[OF _ sz valid_section_fits] v obtain cur where
    "processImage h (Some img) (Some sec) =
           Some (\<lparr>outcome = Completed \<lparr>width = width img, height = height img, data = length h\<rparr>,
                  progress_calls =
                    0 # map (\<lambda>i. progress_value i (Finite (int (width img div nat (section_size sec)))))
                          [0..<width img div nat (section_size sec)] @ [0]\<rparr>,
                 h @ [cur])"
    by blast
  thus "\<exists>p h2 out. processImage h (Some img) (Some sec) = Some (p, h2) \<and> outcome p = Completed out \<and>
         width out = width img \<and> height out = height img \<and>
         data out = length h \<and> length h2 = Suc (length h) \<and>
         h2 ! data img = h ! data img \<and> take (length h) h2 = h"
    using src by (simp add: nth_append)
qed

theorem processImage_input_unchanged_witness:
  "processImage [[1, 2, 3, 4, 5, 6, 7, 8]] (Some \<lparr>width = 2, height = 1, data = 0\<rparr>)
     (Some \<lparr>section_id = ''1'', section_name = ''swap'', section_size = 2,
            section_pattern = [2, 1], created_at = ''''\<rparr>)
   = Some (\<lparr>outcome = Completed \<lparr>width = 2, height = 1, data = 1\<rparr>, progress_calls = [0, 100, 0]\<rparr>,
           [[1, 2, 3, 4, 5, 6, 7, 8], [5, 6, 7, 8, 1, 2, 3, 4]]) \<and>
   take (length [[1, 2, 3, 4, 5, 6, 7, 8 :: byte]])
     [[1, 2, 3, 4, 5, 6, 7, 8], [5, 6, 7, 8, 1, 2, 3, 4]] = [[1, 2, 3, 4, 5, 6, 7, 8 :: byte]] \<and>
   valid_image [[1, 2, 3, 4, 5, 6, 7, 8]] \<lparr>width = 2, height = 1, data = 0\<rparr> \<and>
   valid_section \<lparr>section_id = ''1'', section_name = ''swap'', section_size = 2,
                   section_pattern = [2, 1], created_at = ''''\<rparr> \<and>
   (\<exists>p h2 out. processImage [[1, 2, 3, 4, 5, 6, 7, 8]] (Some \<lparr>width = 2, height = 1, data = 0\<rparr>)
        (Some \<lparr>section_id = ''1'', section_name = ''swap'', section_size = 2,
               section_pattern = [2, 1], created_at = ''''\<rparr>) = Some (p, h2) \<and>
      outcome p = Completed out \<and> width out = 2 \<and> height out = 1 \<and> data out = 1 \<and>
      length h2 = 2 \<and> h2 ! 0 = [1, 2, 3, 4, 5, 6, 7, 8])"
proof -
  let ?h = "[[1, 2, 3, 4, 5, 6, 7, 8]] :: store"
  let ?img = "\<lparr>width = 2, height = 1, data = 0\<rparr>"
  let ?sec = "\<lparr>section_id = ''1'', section_name = ''swap'', section_size = 2,
                   section_pattern = [2, 1], created_at = ''''\<rparr>"
  have vi: "valid_image ?h ?img" by (simp add: valid_image_def)
  have vs: "valid_section ?sec" by (simp add: valid_section_def)
  note u = processImage_input_unchanged[of ?h "Some ?img" "Some ?sec"
      "\<lparr>outcome = Completed \<lparr>width = 2, height = 1, data = 1\<rparr>, progress_calls = [0, 100, 0]\<rparr>"
      "[[1, 2, 3, 4, 5, 6, 7, 8], [5, 6, 7, 8, 1, 2, 3, 4]]" ?img ?sec]
  from u processImage_swap_run
  have "take (length ?h) [[1, 2, 3, 4, 5, 6, 7, 8], [5, 6, 7, 8, 1, 2, 3, 4]] = ?h" by blast
  moreover from u vi vs obtain p h2 out where
    "processImage ?h (Some ?img) (Some ?sec) = Some (p, h2)" "outcome p = Completed out"
    "width out = 2" "height out = 1" "data out = 1" "length h2 = 2" "h2 ! 0 = [1, 2, 3, 4, 5, 6, 7, 8]"
    by auto
  ultimately show ?thesis using processImage_swap_run vi vs by blast
qed

text \<open>
  Claim C9. On a well-formed image and a pattern that is a permutation of \<open>1..S\<close>, in every
  row of every complete slice the multiset of the output pixels (the four bytes of each)
  is the multiset of the input pixels of that row of that slice.
\<close>

theorem processImage_rearranges:
  assumes "valid_image h img" and "valid_section sec"
  shows "\<exists>r h' out. processImage h (Some img) (Some sec) = Some (r, h') \<and> outcome r = Completed out \<and>
           (\<forall>i < width img div nat (section_size sec). \<forall>y < height img.
              mset (map (\<lambda>j. pixel_at h' out (i * nat (section_size sec) + j) y)
                      [0..<nat (section_size sec)]) =
              mset (map (\<lambda>j. pixel_at h img (i * nat (section_size sec) + j) y)
                      [0..<nat (section_size sec)]))"
proof -
  define S where "S = nat (section_size sec)"
  have sz: "1 \<le> section_size sec" using assms(2) by (simp add: valid_section_def)
  from processImage_pixels[OF assms(1) sz valid_section_fits[OF assms(2)]]
  obtain cur where
    run: "processImage h (Some img) (Some sec) =
           Some (\<lparr>outcome = Completed \<lparr>width = width img, height = height img, data = length h\<rparr>,
                  progress_calls =
                    0 # map (\<lambda>i. progress_value i (Finite (int (width img div S))))
                          [0..<width img div S] @ [0]\<rparr>,
                 h @ [cur])"
    and px: "\<And>x y. x < width img \<Longrightarrow> y < height img \<Longrightarrow>
              pixel_at (h @ [cur]) \<lparr>width = width img, height = height img, data = length h\<rparr> x y
                = pixel_at h img (if x < (width img div S) * S
                     then source_column S (section_pattern sec) x else x) y"
    unfolding S_def by blast
  let ?out = "\<lparr>width = width img, height = height img, data = length h\<rparr>"
  have "mset (map (\<lambda>j. pixel_at (h @ [cur]) ?out (i * S + j) y) [0..<S]) =
        mset (map (\<lambda>j. pixel_at h img (i * S + j) y) [0..<S])"
    if i: "i < width img div S" and y: "y < height img" for i y
  proof -
    have e: "pixel_at (h @ [cur]) ?out (i * S + j) y
               = pixel_at h img (i * S + nat (section_pattern sec ! j - 1)) y" if j: "j < S" for j
    proof -
      have "i * S + j < Suc i * S" using j by simp
      also have "\<dots> \<le> (width img div S) * S" using i by (intro mult_le_mono1) simp
      finally have lt: "i * S + j < (width img div S) * S" .
      hence "i * S + j < width img" by (rule less_le_trans) simp
      from px[OF this y] lt show ?thesis by (simp add: source_column_slice[OF j])
    qed
    have "map (\<lambda>j. pixel_at (h @ [cur]) ?out (i * S + j) y) [0..<S]
            = map (\<lambda>q. pixel_at h img (i * S + q) y)
                (map (\<lambda>j. nat (section_pattern sec ! j - 1)) [0..<S])"
      using e by simp
    hence "mset (map (\<lambda>j. pixel_at (h @ [cur]) ?out (i * S + j) y) [0..<S])
            = image_mset (\<lambda>q. pixel_at h img (i * S + q) y)
                (mset (map (\<lambda>j. nat (section_pattern sec ! j - 1)) [0..<S]))"
      by (simp only: mset_map)
    also have "\<dots> = image_mset (\<lambda>q. pixel_at h img (i * S + q) y) (mset [0..<S])"
      using valid_section_positions[OF assms(2)] by (simp only: S_def)
    also have "\<dots> = mset (map (\<lambda>j. pixel_at h img (i * S + j) y) [0..<S])"
      by (simp only: mset_map)
    finally show ?thesis .
  qed
  thus ?thesis using run unfolding S_def by simp
qed

theorem processImage_rearranges_witness:
  "valid_image [[1, 2, 3, 4, 5, 6, 7, 8, 9, 10, 11, 12]] \<lparr>width = 3, height = 1, data = 0\<rparr> \<and>
   valid_section \<lparr>section_id = ''1'', section_name = ''weave'', section_size = 3,
                   section_pattern = [3, 1, 2], created_at = ''''\<rparr> \<and>
   (\<exists>r h' out. processImage [[1, 2, 3, 4, 5, 6, 7, 8, 9, 10, 11, 12]]
                  (Some \<lparr>width = 3, height = 1, data = 0\<rparr>)
                  (Some \<lparr>section_id = ''1'', section_name = ''weave'', section_size = 3,
                         section_pattern = [3, 1, 2], created_at = ''''\<rparr>) = Some (r, h') \<and>
      outcome r = Completed out \<and>
      mset [pixel_at h' out 0 0, pixel_at h' out 1 0, pixel_at h' out 2 0] =
        {#(Some 1, Some 2, Some 3, Some 4), (Some 5, Some 6, Some 7, Some 8),
          (Some 9, Some 10, Some 11, Some 12)#})"
proof -
  let ?h = "[[1, 2, 3, 4, 5, 6, 7, 8, 9, 10, 11, 12]] :: store"
  let ?img = "\<lparr>width = 3, height = 1, data = 0\<rparr>"
  let ?sec = "\<lparr>section_id = ''1'', section_name = ''weave'', section_size = 3,
                   section_pattern = [3, 1, 2], created_at = ''''\<rparr>"
  have vi: "valid_image ?h ?img" by (simp add: valid_image_def)
  have vs: "valid_section ?sec" by (simp add: valid_section_def)
  have three: "[0..<3] = [0, 1, 2]" by (simp add: upt_rec)
  from processImage_rearranges[OF vi vs] obtain r h' out where
    run: "processImage ?h (Some ?img) (Some ?sec) = Some (r, h')" "outcome r = Completed out"
    and m: "\<And>i y. i < 1 \<Longrightarrow> y < 1 \<Longrightarrow>
              mset (map (\<lambda>j. pixel_at h' out (i * 3 + j) y) [0..<3]) =
              mset (map (\<lambda>j. pixel_at ?h ?img (i * 3 + j) y) [0..<3])"
    by auto
  have "mset [pixel_at h' out 0 0, pixel_at h' out 1 0, pixel_at h' out 2 0] =
        {#(Some 1, Some 2, Some 3, Some 4), (Some 5, Some 6, Some 7, Some 8),
          (Some 9, Some 10, Some 11, Some 12)#}"
    using m[of 0 0] unfolding three
    by (simp add: pixel_at_def pixelIndex_def rd_def ta_get_def)
  thus ?thesis using vi vs run by blast
qed

text \<open>
  Claim C10. On a well-formed image and a valid pattern, every pixel of the output is, with
  all four of its bytes, one pixel of the same row of the input; and row \<open>y\<close> of the output
  depends on row \<open>y\<close> of the input only: two images of the same size that agree on row \<open>y\<close>
  give outputs that agree on row \<open>y\<close>.
\<close>

theorem processImage_whole_pixels:
  assumes "valid_image h img" and "valid_image g img2" and "valid_section sec"
    and "width img2 = width img" and "height img2 = height img"
  shows "\<exists>r h' out r2 g' out2.
           processImage h (Some img) (Some sec) = Some (r, h') \<and> outcome r = Completed out \<and>
           processImage g (Some img2) (Some sec) = Some (r2, g') \<and> outcome r2 = Completed out2 \<and>
           (\<forall>x < width img. \<forall>y < height img. \<exists>x' < width img.
              pixel_at h' out x y = pixel_at h img x' y) \<and>
           (\<forall>y < height img.
              (\<forall>x < width img. pixel_at g img2 x y = pixel_at h img x y) \<longrightarrow>
              (\<forall>x < width img. pixel_at g' out2 x y = pixel_at h' out x y))"
proof -
  define S where "S = nat (section_size sec)"
  define w where "w = width img"
  define hg where "hg = height img"
  define f where "f = (\<lambda>x. if x < (w div S) * S then source_column S (section_pattern sec) x else x)"
  have sz: "1 \<le> section_size sec" using assms(3) by (simp add: valid_section_def)
  have S0: "S \<noteq> 0" using sz by (simp add: S_def)
  have fits: "pattern_fits S (section_pattern sec)"
    using valid_section_fits[OF assms(3)] by (simp add: S_def)
  have fw: "f x < w" if "x < w" for x
  proof (cases "x < (w div S) * S")
    case True
    from source_column_less[OF fits S0 True] have "f x < (w div S) * S" using True by (simp add: f_def)
    thus ?thesis by (rule less_le_trans) simp
  next
    case False
    thus ?thesis using that by (simp add: f_def)
  qed
  let ?out = "\<lparr>width = w, height = hg, data = length h\<rparr>"
  let ?out2 = "\<lparr>width = w, height = hg, data = length g\<rparr>"
  from processImage_pixels[OF assms(1) sz valid_section_fits[OF assms(3)]]
  obtain c r where
    run: "processImage h (Some img) (Some sec) = Some (r, h @ [c])" "outcome r = Completed ?out"
    and px: "\<And>x y. x < w \<Longrightarrow> y < hg \<Longrightarrow> pixel_at (h @ [c]) ?out x y = pixel_at h img (f x) y"
    unfolding S_def[symmetric] w_def[symmetric] hg_def[symmetric] f_def
    by (metis run.select_convs(1))
  from processImage_pixels[OF assms(2) sz valid_section_fits[OF assms(3)]]
  obtain c2 r2 where
    run2: "processImage g (Some img2) (Some sec) = Some (r2, g @ [c2])" "outcome r2 = Completed ?out2"
    and px2: "\<And>x y. x < w \<Longrightarrow> y < hg \<Longrightarrow> pixel_at (g @ [c2]) ?out2 x y = pixel_at g img2 (f x) y"
    unfolding assms(4,5) S_def[symmetric] w_def[symmetric] hg_def[symmetric] f_def
    by (metis run.select_convs(1))
  have a: "\<exists>x' < w. pixel_at (h @ [c]) ?out x y = pixel_at h img x' y" if "x < w" "y < hg" for x y
    using px[OF that] fw[OF that(1)] by blast
  have b: "pixel_at (g @ [c2]) ?out2 x y = pixel_at (h @ [c]) ?out x y"
    if "y < hg" "\<forall>x < w. pixel_at g img2 x y = pixel_at h img x y" "x < w" for x y
    using px[OF that(3,1)] px2[OF that(3,1)] that(2) fw[OF that(3)] by simp
  show ?thesis
    unfolding w_def[symmetric] hg_def[symmetric]
    using run run2 a b
    by (intro exI[of _ r] exI[of _ "h @ [c]"] exI[of _ ?out] exI[of _ r2]
        exI[of _ "g @ [c2]"] exI[of _ ?out2]) blast
qed

theorem processImage_whole_pixels_witness:
  "valid_image [[1, 2, 3, 4, 5, 6, 7, 8]] \<lparr>width = 2, height = 1, data = 0\<rparr> \<and>
   valid_image [[9, 9, 9, 9], [1, 2, 3, 4, 5, 6, 7, 8]] \<lparr>width = 2, height = 1, data = 1\<rparr> \<and>
   valid_section \<lparr>section_id = ''1'', section_name = ''swap'', section_size = 2,
                   section_pattern = [2, 1], created_at = ''''\<rparr> \<and>
   pixel_at [[9, 9, 9, 9], [1, 2, 3, 4, 5, 6, 7, 8]] \<lparr>width = 2, height = 1, data = 1\<rparr> 0 0 =
     pixel_at [[1, 2, 3, 4, 5, 6, 7, 8]] \<lparr>width = 2, height = 1, data = 0\<rparr> 0 0 \<and>
   pixel_at [[9, 9, 9, 9], [1, 2, 3, 4, 5, 6, 7, 8]] \<lparr>width = 2, height = 1, data = 1\<rparr> 1 0 =
     pixel_at [[1, 2, 3, 4, 5, 6, 7, 8]] \<lparr>width = 2, height = 1, data = 0\<rparr> 1 0 \<and>
   (\<exists>r h' out r2 g' out2.
      processImage [[1, 2, 3, 4, 5, 6, 7, 8]] (Some \<lparr>width = 2, height = 1, data = 0\<rparr>)
        (Some \<lparr>section_id = ''1'', section_name = ''swap'', section_size = 2,
               section_pattern = [2, 1], created_at = ''''\<rparr>) = Some (r, h') \<and>
      outcome r = Completed out \<and>
      processImage [[9, 9, 9, 9], [1, 2, 3, 4, 5, 6, 7, 8]] (Some \<lparr>width = 2, height = 1, data = 1\<rparr>)
        (Some \<lparr>section_id = ''1'', section_name = ''swap'', section_size = 2,
               section_pattern = [2, 1], created_at = ''''\<rparr>) = Some (r2, g') \<and>
      outcome r2 = Completed out2 \<and>
      pixel_at g' out2 0 0 = pixel_at h' out 0 0 \<and> pixel_at g' out2 1 0 = pixel_at h' out 1 0 \<and>
      (\<exists>x'. x' < 2 \<and> pixel_at h' out 0 0 =
                pixel_at [[1, 2, 3, 4, 5, 6, 7, 8]] \<lparr>width = 2, height = 1, data = 0\<rparr> x' 0))"
proof -
  let ?h = "[[1, 2, 3, 4, 5, 6, 7, 8]] :: store"
  let ?g = "[[9, 9, 9, 9], [1, 2, 3, 4, 5, 6, 7, 8]] :: store"
  let ?img = "\<lparr>width = 2, height = 1, data = 0\<rparr>"
  let ?img2 = "\<lparr>width = 2, height = 1, data = 1\<rparr>"
  let ?sec = "\<lparr>section_id = ''1'', section_name = ''swap'', section_size = 2,
                   section_pattern = [2, 1], created_at = ''''\<rparr>"
  have vi: "valid_image ?h ?img" by (simp add: valid_image_def)
  have vg: "valid_image ?g ?img2" by (simp add: valid_image_def)
  have vs: "valid_section ?sec" by (simp add: valid_section_def)
  have p0: "pixel_at ?g ?img2 0 0 = pixel_at ?h ?img 0 0"
    by (simp add: pixel_at_def pixelIndex_def rd_def ta_get_def)
  have p1: "pixel_at ?g ?img2 1 0 = pixel_at ?h ?img 1 0"
    by (simp add: pixel_at_def pixelIndex_def rd_def ta_get_def)
  have row: "\<forall>x<2. pixel_at ?g ?img2 x 0 = pixel_at ?h ?img x 0"
    using p0 p1 by (auto simp: less_2_cases_iff)
  have wh: "width ?img2 = width ?img" "height ?img2 = height ?img" by simp_all
  from processImage_whole_pixels[OF vi vg vs wh] obtain r h' out r2 g' out2 where
    run: "processImage ?h (Some ?img) (Some ?sec) = Some (r, h')" "outcome r = Completed out"
      "processImage ?g (Some ?img2) (Some ?sec) = Some (r2, g')" "outcome r2 = Completed out2"
    and a: "\<forall>x<width ?img. \<forall>y<height ?img. \<exists>x'<width ?img.
              pixel_at h' out x y = pixel_at ?h ?img x' y"
    and b: "\<forall>y<height ?img. (\<forall>x<width ?img. pixel_at ?g ?img2 x y = pixel_at ?h ?img x y) \<longrightarrow>
                  (\<forall>x<width ?img. pixel_at g' out2 x y = pixel_at h' out x y)"
    by blast
  from b row have "\<forall>x<2. pixel_at g' out2 x 0 = pixel_at h' out x 0" by simp
  hence "pixel_at g' out2 0 0 = pixel_at h' out 0 0" "pixel_at g' out2 1 0 = pixel_at h' out 1 0"
    by simp_all
  moreover from a have "\<exists>x'. x' < 2 \<and> pixel_at h' out 0 0 = pixel_at ?h ?img x' 0" by simp
  ultimately show ?thesis using vi vg vs p0 p1 run by blast
qed

text \<open>
  Claim C5, as the program has it. On a well-formed image and a valid pattern the calls of
  \<open>setProgress\<close> are: 0 when the run starts, then after slice \<open>i\<close> of \<open>N\<close> the percentage
  \<open>((i + 1) / N) * 100\<close> as the program computes it, the quotient rounded to a double and
  its product with 100 rounded again, then 0 again when the run ends. The values of the
  loop are non-decreasing, lie in \<open>(0, 100]\<close>, and the last of them is exactly 100 when
  \<open>N \<ge> 1\<close>. When \<open>N = 0\<close> the loop reports nothing and the result is an unmodified copy.
  The witness is a run with three slices: it reports 33.33333333333333 and
  66.66666666666666, written as the fractions that these doubles are, and then 100.
\<close>

theorem processImage_progress:
  assumes "valid_image h img" and "valid_section sec"
  shows "\<exists>r h' out. processImage h (Some img) (Some sec) = Some (r, h') \<and> outcome r = Completed out \<and>
           progress_calls r = [0] @ slice_reports (width img div nat (section_size sec)) @ [0] \<and>
           slice_reports (width img div nat (section_size sec)) =
             map (\<lambda>i. round_double
                        (round_double (of_nat (i + 1) / of_nat (width img div nat (section_size sec)))
                           * 100))
               [0..<width img div nat (section_size sec)] \<and>
           sorted (slice_reports (width img div nat (section_size sec))) \<and>
           (\<forall>v \<in> set (slice_reports (width img div nat (section_size sec))). 0 < v \<and> v \<le> 100) \<and>
           (0 < width img div nat (section_size sec) \<longrightarrow>
              last (slice_reports (width img div nat (section_size sec))) = 100) \<and>
           (width img div nat (section_size sec) = 0 \<longrightarrow>
              slice_reports (width img div nat (section_size sec)) = [] \<and>
              h' ! data out = h ! data img)"
proof -
  define N where "N = width img div nat (section_size sec)"
  have sz: "1 \<le> section_size sec" using assms(2) by (simp add: valid_section_def)
  have lenD: "length (h ! data img) = 4 * width img * height img"
    using assms(1) by (simp add: valid_image_def)
  from processImage_gathered[OF assms(1) sz valid_section_fits[OF assms(2)]] obtain cur where
    run: "processImage h (Some img) (Some sec) =
           Some (\<lparr>outcome = Completed \<lparr>width = width img, height = height img, data = length h\<rparr>,
                  progress_calls = 0 # slice_reports N @ [0]\<rparr>,
                 h @ [cur])"
    and g: "gathered (h ! data img) (width img) (height img)
             (source_column (nat (section_size sec)) (section_pattern sec))
             (\<lambda>x y. x < N * nat (section_size sec)) cur"
    unfolding N_def slice_reports_def by blast
  have copy: "cur = h ! data img" if "N = 0"
    using g lenD by (rule gathered_same) (simp add: that)
  have "slice_reports N = [] \<and> (h @ [cur]) ! length h = h ! data img" if "N = 0"
    using copy[OF that] that by (simp add: slice_reports_def)
  thus ?thesis
    using run slice_reports_sorted[of N] slice_reports_range[of _ N] slice_reports_last[of N]
      slice_reports_eq[of N]
    unfolding N_def[symmetric] by simp
qed

theorem processImage_progress_witness:
  "valid_image [[1, 2, 3, 4, 5, 6, 7, 8, 9, 10, 11, 12]] \<lparr>width = 3, height = 1, data = 0\<rparr> \<and>
   valid_section \<lparr>section_id = ''1'', section_name = ''plain'', section_size = 1,
                   section_pattern = [1], created_at = ''''\<rparr> \<and>
   (\<exists>r h' out. processImage [[1, 2, 3, 4, 5, 6, 7, 8, 9, 10, 11, 12]]
                  (Some \<lparr>width = 3, height = 1, data = 0\<rparr>)
                  (Some \<lparr>section_id = ''1'', section_name = ''plain'', section_size = 1,
                         section_pattern = [1], created_at = ''''\<rparr>) = Some (r, h') \<and>
      outcome r = Completed out \<and>
      progress_calls r =
        [0, 2345624805922133 / 70368744177664, 2345624805922133 / 35184372088832, 100, 0])"
proof -
  let ?h = "[[1, 2, 3, 4, 5, 6, 7, 8, 9, 10, 11, 12]] :: store"
  let ?img = "\<lparr>width = 3, height = 1, data = 0\<rparr>"
  let ?sec = "\<lparr>section_id = ''1'', section_name = ''plain'', section_size = 1,
                   section_pattern = [1], created_at = ''''\<rparr>"
  have vi: "valid_image ?h ?img" by (simp add: valid_image_def)
  have vs: "valid_section ?sec" by (simp add: valid_section_def)
  from processImage_progress[OF vi vs] obtain r h' out where
    run: "processImage ?h (Some ?img) (Some ?sec) = Some (r, h')" "outcome r = Completed out"
    and p: "progress_calls r = [0] @ slice_reports 3 @ [0]"
    by auto
  have "progress_calls r =
        [0, 2345624805922133 / 70368744177664, 2345624805922133 / 35184372088832, 100, 0]"
    using p by (simp add: slice_reports_three)
  thus ?thesis using vi vs run by blast
qed

text \<open>
  Claim C5 as stated fails where \<open>N = 0\<close>: with width 2 and size 3 the run completes with
  an unmodified copy, and the only values reported are the 0 at the start and the 0 at the
  end; neither 1 nor 100 is ever reported.
\<close>

theorem processImage_progress_counterexample:
  "processImage [[1, 2, 3, 4, 5, 6, 7, 8]] (Some \<lparr>width = 2, height = 1, data = 0\<rparr>)
     (Some \<lparr>section_id = ''1'', section_name = ''weave'', section_size = 3,
            section_pattern = [3, 1, 2], created_at = ''''\<rparr>)
   = Some (\<lparr>outcome = Completed \<lparr>width = 2, height = 1, data = 1\<rparr>, progress_calls = [0, 0]\<rparr>,
           [[1, 2, 3, 4, 5, 6, 7, 8], [1, 2, 3, 4, 5, 6, 7, 8]]) \<and>
   (1::rat) \<notin> set [0, 0] \<and> (100::rat) \<notin> set [0, 0]"
  unfolding processImage_def
  apply (subst slice_loop.simps)
  apply code_simp
  done

section \<open>The claims about validation\<close>

lemma digit_not_white: "digit_of R c \<noteq> None \<Longrightarrow> \<not> is_white_space c"
  by (auto simp: digit_of_def is_white_space_def Let_def split: if_splits)

lemma digit_not_sign: "digit_of R c \<noteq> None \<Longrightarrow> c \<noteq> CHR ''+'' \<and> c \<noteq> CHR ''-''"
  by (auto simp: digit_of_def Let_def split: if_splits)

lemma sign_not_white: "\<not> is_white_space CHR ''+''" "\<not> is_white_space CHR ''-''"
  by (simp_all add: is_white_space_def)

lemma hex_prefix_hd: "hex_prefix s \<Longrightarrow> s \<noteq> [] \<and> hd s = CHR ''0''"
  by (cases s) (auto simp: hex_prefix_def)

lemma digit_zero: "digit_of 10 CHR ''0'' \<noteq> None"
  by (simp add: digit_of_def)

lemma parseInt_body:
  assumes ws: "list_all is_white_space ws"
    and sg: "sg \<in> {[], ''+'', ''-''}"
    and t: "sg = [] \<longrightarrow> t = [] \<or> (\<not> is_white_space (hd t) \<and> hd t \<noteq> CHR ''+'' \<and> hd t \<noteq> CHR ''-'')"
  shows "parseInt (ws @ sg @ t) =
     (let R = (if hex_prefix t then 16 else 10);
          Z = takeWhile (\<lambda>c. digit_of R c \<noteq> None) (if hex_prefix t then drop 2 t else t)
      in if Z = [] then NaN else read_number (if sg = ''-'' then - 1 else 1) (digits_value R Z))"
proof -
  have nw: "sg @ t = [] \<or> \<not> is_white_space (hd (sg @ t))"
    using sg t sign_not_white by auto
  have "dropWhile is_white_space (ws @ sg @ t) = dropWhile is_white_space (sg @ t)"
    using ws by (intro dropWhile_append2) (simp add: list_all_iff)
  also have "\<dots> = sg @ t" using nw by (cases "sg @ t") auto
  finally have d: "dropWhile is_white_space (ws @ sg @ t) = sg @ t" .
  consider "sg = []" | "sg = ''+''" | "sg = ''-''" using sg by auto
  thus ?thesis
  proof cases
    case 1
    thus ?thesis using t unfolding parseInt_def d by (cases t) (auto simp: Let_def)
  next
    case 2
    thus ?thesis unfolding parseInt_def d by (simp add: Let_def)
  next
    case 3
    thus ?thesis unfolding parseInt_def d by (simp add: Let_def)
  qed
qed

lemma takeWhile_digits:
  assumes "list_all (\<lambda>c. digit_of R c \<noteq> None) ds" and "rest = [] \<or> digit_of R (hd rest) = None"
  shows "takeWhile (\<lambda>c. digit_of R c \<noteq> None) (ds @ rest) = ds"
proof -
  have "takeWhile (\<lambda>c. digit_of R c \<noteq> None) (ds @ rest)
          = ds @ takeWhile (\<lambda>c. digit_of R c \<noteq> None) rest"
    using assms(1) by (intro takeWhile_append2) (simp add: list_all_iff)
  moreover have "takeWhile (\<lambda>c. digit_of R c \<noteq> None) rest = []"
    using assms(2) by (cases rest) auto
  ultimately show ?thesis by simp
qed

lemma parseInt_decimal:
  assumes ws: "list_all is_white_space ws" and sg: "sg \<in> {[], ''+'', ''-''}"
    and ds: "ds \<noteq> []" "list_all (\<lambda>c. digit_of 10 c \<noteq> None) ds"
    and rest: "rest = [] \<or> digit_of 10 (hd rest) = None"
    and nh: "\<not> hex_prefix (ds @ rest)"
  shows "parseInt (ws @ sg @ ds @ rest) =
           read_number (if sg = ''-'' then - 1 else 1) (digits_value 10 ds)"
proof -
  have hd: "digit_of 10 (hd (ds @ rest)) \<noteq> None" using ds by (cases ds) simp_all
  have t: "sg = [] \<longrightarrow> ds @ rest = [] \<or>
            (\<not> is_white_space (hd (ds @ rest)) \<and> hd (ds @ rest) \<noteq> CHR ''+'' \<and> hd (ds @ rest) \<noteq> CHR ''-'')"
    using digit_not_white[OF hd] digit_not_sign[OF hd] by simp
  show ?thesis
    using parseInt_body[OF ws sg t] nh takeWhile_digits[OF ds(2) rest] ds(1)
    by (simp add: Let_def)
qed

lemma parseInt_hex:
  assumes ws: "list_all is_white_space ws" and sg: "sg \<in> {[], ''+'', ''-''}"
    and pre: "pre \<in> {''0x'', ''0X''}"
    and hs: "hs \<noteq> []" "list_all (\<lambda>c. digit_of 16 c \<noteq> None) hs"
    and rest: "rest = [] \<or> digit_of 16 (hd rest) = None"
  shows "parseInt (ws @ sg @ pre @ hs @ rest) =
           read_number (if sg = ''-'' then - 1 else 1) (digits_value 16 hs)"
proof -
  have hp: "hex_prefix (pre @ hs @ rest)" "drop 2 (pre @ hs @ rest) = hs @ rest"
    using pre by (auto simp: hex_prefix_def)
  have hd: "hd (pre @ hs @ rest) = CHR ''0''" using pre by auto
  have t: "sg = [] \<longrightarrow> pre @ hs @ rest = [] \<or>
            (\<not> is_white_space (hd (pre @ hs @ rest)) \<and> hd (pre @ hs @ rest) \<noteq> CHR ''+'' \<and>
             hd (pre @ hs @ rest) \<noteq> CHR ''-'')"
    unfolding hd using digit_not_white[OF digit_zero] by simp
  show ?thesis
    using parseInt_body[OF ws sg t] hp takeWhile_digits[OF hs(2) rest] hs(1)
    by (simp add: Let_def)
qed

lemma parseInt_no_digit:
  assumes ws: "list_all is_white_space ws" and sg: "sg \<in> {[], ''+'', ''-''}"
    and t: "t = [] \<or> digit_of 10 (hd t) = None"
    and u: "sg = [] \<longrightarrow> t = [] \<or> (\<not> is_white_space (hd t) \<and> hd t \<noteq> CHR ''+'' \<and> hd t \<noteq> CHR ''-'')"
  shows "parseInt (ws @ sg @ t) = NaN"
proof -
  have nh: "\<not> hex_prefix t" using t hex_prefix_hd[of t] digit_zero by auto
  have "takeWhile (\<lambda>c. digit_of 10 c \<noteq> None) t = []" using t by (cases t) auto
  thus ?thesis using parseInt_body[OF ws sg u] nh by (simp add: Let_def)
qed

lemma parseInt_hex_no_digit:
  assumes ws: "list_all is_white_space ws" and sg: "sg \<in> {[], ''+'', ''-''}"
    and pre: "pre \<in> {''0x'', ''0X''}"
    and rest: "rest = [] \<or> digit_of 16 (hd rest) = None"
  shows "parseInt (ws @ sg @ pre @ rest) = NaN"
proof -
  have hp: "hex_prefix (pre @ rest)" "drop 2 (pre @ rest) = rest"
    using pre by (auto simp: hex_prefix_def)
  have hd: "hd (pre @ rest) = CHR ''0''" using pre by auto
  have t: "sg = [] \<longrightarrow> pre @ rest = [] \<or>
            (\<not> is_white_space (hd (pre @ rest)) \<and> hd (pre @ rest) \<noteq> CHR ''+'' \<and>
             hd (pre @ rest) \<noteq> CHR ''-'')"
    unfolding hd using digit_not_white[OF digit_zero] by simp
  have "takeWhile (\<lambda>c. digit_of 16 c \<noteq> None) rest = []" using rest by (cases rest) auto
  thus ?thesis using parseInt_body[OF ws sg t] hp by (simp add: Let_def)
qed

lemma read_number_exact:
  assumes "0 \<le> v" and "v \<le> 2 ^ 53"
  shows "read_number s v = Number (s * v)"
proof -
  have "(of_int v :: rat) \<le> of_int (2 ^ 53)" using assms(2) by (simp only: of_int_le_iff)
  also have "\<dots> < 2 ^ 1024" by simp
  finally show ?thesis using round_double_int_exact[OF assms] by (simp add: read_number_def)
qed

lemma read_number_code [code]:
  "read_number sign mathInt =
     (if 0 \<le> mathInt \<and> mathInt \<le> 9007199254740992 then Number (sign * mathInt)
      else let d = round_double (of_int mathInt)
           in if d < 2 ^ 1024 then Number (sign * \<lfloor>d\<rfloor>)
              else if 0 < sign then PosInfinity else NegInfinity)"
  using read_number_exact[of mathInt sign] by (simp add: read_number_def)

lemma digits_value_nonneg: "0 \<le> digits_value R Z"
proof -
  have "0 \<le> a \<Longrightarrow> 0 \<le> foldl (\<lambda>a c. a * int R + int (the (digit_of R c))) a Z" for a
    by (induction Z arbitrary: a) simp_all
  thus ?thesis by (simp add: digits_value_def)
qed

lemma out_of_range_iff:
  "out_of_range sz p \<longleftrightarrow>
     (\<exists>n. p = Number n \<and> (n < 1 \<or> sz < n)) \<or> p = PosInfinity \<or> p = NegInfinity"
  by (cases p) (simp_all add: out_of_range_def)

lemma validate_pattern_cases:
  "validate_pattern sz strs =
     (if \<exists>s\<in>set strs. parseInt s = NaN \<or> out_of_range sz (parseInt s) then InvalidRange
      else if \<not> distinct (map parseInt strs) then DuplicateValue
      else Valid (map parseInt strs))"
proof -
  have a: "(list_ex (\<lambda>p. p = NaN) (map parseInt strs) \<or> list_ex (out_of_range sz) (map parseInt strs))
          = (\<exists>s\<in>set strs. parseInt s = NaN \<or> out_of_range sz (parseInt s))"
    unfolding list_ex_iff by (simp add: image_iff) (metis (no_types, lifting))
  have b: "(length (remdups (map parseInt strs)) \<noteq> length (map parseInt strs))
          = (\<not> distinct (map parseInt strs))"
    by (simp only: length_remdups_eq remdups_id_iff_distinct)
  show ?thesis unfolding validate_pattern_def Let_def a b by simp
qed

lemma permutation_facts:
  assumes "mset pat = mset [1..sz]"
  shows "distinct pat" and "set pat = {1..sz}" and "length pat = nat sz"
proof -
  show "distinct pat" using assms mset_eq_imp_distinct_iff[of pat "[1..sz]"] by simp
  show "set pat = {1..sz}" using mset_eq_setD[OF assms] by simp
  show "length pat = nat sz" using mset_eq_length[OF assms] by simp
qed

lemma in_range_length:
  assumes r: "\<forall>s\<in>set strs. \<exists>n. parseInt s = Number n \<and> 1 \<le> n \<and> n \<le> sz"
    and d: "distinct (map parseInt strs)"
  shows "length strs \<le> nat sz"
proof -
  have "set (map parseInt strs) \<subseteq> Number ` {1..sz}" using r by force
  hence "card (set (map parseInt strs)) \<le> card (Number ` {1..sz})" by (intro card_mono) simp_all
  also have "\<dots> = nat sz" by (simp add: card_image inj_on_def)
  finally show ?thesis using distinct_card[OF d] by simp
qed

lemma in_range_not_bad:
  "(\<forall>s\<in>set strs. \<exists>n. parseInt s = Number n \<and> 1 \<le> n \<and> n \<le> sz) \<longleftrightarrow>
   \<not> (\<exists>s\<in>set strs. parseInt s = NaN \<or> out_of_range sz (parseInt s))"
proof -
  have "(\<exists>n. p = Number n \<and> 1 \<le> n \<and> n \<le> sz) \<longleftrightarrow> \<not> (p = NaN \<or> out_of_range sz p)" for p
    by (cases p) (auto simp: out_of_range_def)
  thus ?thesis by blast
qed

lemma validate_permutation:
  assumes "mset pat = mset [1..sz]" and m: "map parseInt strs = map Number pat"
  shows "validate_pattern sz strs = Valid (map Number pat)"
proof -
  have p: "distinct pat" "set pat = {1..sz}" using permutation_facts[OF assms(1)] by simp_all
  have e: "parseInt s \<in> Number ` set pat" if "s \<in> set strs" for s
    using that m by (metis image_eqI list.set_map)
  have r: "\<forall>s\<in>set strs. \<exists>n. parseInt s = Number n \<and> 1 \<le> n \<and> n \<le> sz"
    using e p(2) by fastforce
  have d: "distinct (map parseInt strs)" using p(1) m by (simp add: distinct_map inj_on_def)
  show ?thesis using r[unfolded in_range_not_bad] d m by (simp add: validate_pattern_cases)
qed

text \<open>
  Entries that a double does not hold exactly, and hexadecimal ones. The integer
  \<open>2\<^sup>5\<^sup>3 + 1\<close> is read as \<open>2\<^sup>5\<^sup>3\<close>: it is within a size of \<open>2\<^sup>5\<^sup>3\<close>, and next to an
  entry \<open>2\<^sup>5\<^sup>3\<close> it is a duplicate.
\<close>

lemma parseInt_rounds:
  "parseInt ''9007199254740993'' = Number 9007199254740992"
  by code_simp

lemma validate_pattern_rounds:
  "validate_pattern 9007199254740992 [''9007199254740993''] = Valid [Number 9007199254740992]"
  by code_simp

lemma handleCreateSection_rounds:
  "handleCreateSection ''weave'' 9007199254740994 [''9007199254740992'', ''9007199254740993'']
     = Rejected DuplicateValue"
  by code_simp

lemma validate_pattern_hex:
  "validate_pattern 2 [''0x1'', ''0x2''] = Valid [Number 1, Number 2]"
  by code_simp

text \<open>
  Claim C3, as the program has it. The checks are made on what \<open>parseInt\<close> makes of each
  entry. Validation succeeds when the numbers read are a permutation of \<open>1..size\<close>
  (\<open>size \<ge> 1\<close>), and the pattern then has \<open>size\<close> entries. It fails with \<open>InvalidRange\<close>
  whenever some entry is read as \<open>NaN\<close>, as an infinity or as a number outside \<open>[1, size]\<close>,
  and with \<open>DuplicateValue\<close> whenever all numbers read are within range and one occurs
  more than once. Two arrays of entries that are read as the same numbers are validated
  alike. How an entry is read: after white space and an optional sign, a run of decimal
  digits that no decimal digit follows is read in radix 10, unless it begins with \<open>0x\<close> or
  \<open>0X\<close>; after that prefix a run of hexadecimal digits that no hexadecimal digit follows
  is read in radix 16; what follows the run is ignored; with no digit in that place the
  entry is \<open>NaN\<close>. The number is the integer read with its sign when that is at most
  \<open>2\<^sup>5\<^sup>3\<close>, and the nearest double beyond.
\<close>

theorem validate_pattern_checks:
  "(1 \<le> sz \<and> mset pat = mset [1..sz] \<and> map parseInt strs = map Number pat
      \<longrightarrow> validate_pattern sz strs = Valid (map Number pat) \<and> int (length pat) = sz) \<and>
   ((\<exists>s\<in>set strs. parseInt s = NaN \<or> parseInt s = PosInfinity \<or> parseInt s = NegInfinity \<or>
                    (\<exists>n. parseInt s = Number n \<and> (n < 1 \<or> sz < n)))
      \<longrightarrow> validate_pattern sz strs = InvalidRange) \<and>
   ((\<forall>s\<in>set strs. \<exists>n. parseInt s = Number n \<and> 1 \<le> n \<and> n \<le> sz) \<and>
    \<not> distinct (map parseInt strs)
      \<longrightarrow> validate_pattern sz strs = DuplicateValue) \<and>
   (map parseInt strs = map parseInt strs'
      \<longrightarrow> validate_pattern sz strs = validate_pattern sz strs') \<and>
   (list_all is_white_space ws \<and> sg \<in> {[], ''+'', ''-''} \<and>
    ds \<noteq> [] \<and> list_all (\<lambda>c. digit_of 10 c \<noteq> None) ds \<and>
    (rest = [] \<or> digit_of 10 (hd rest) = None) \<and> \<not> hex_prefix (ds @ rest)
      \<longrightarrow> parseInt (ws @ sg @ ds @ rest) =
            read_number (if sg = ''-'' then - 1 else 1) (digits_value 10 ds)) \<and>
   (list_all is_white_space ws \<and> sg \<in> {[], ''+'', ''-''} \<and> pre \<in> {''0x'', ''0X''} \<and>
    hs \<noteq> [] \<and> list_all (\<lambda>c. digit_of 16 c \<noteq> None) hs \<and>
    (rest = [] \<or> digit_of 16 (hd rest) = None)
      \<longrightarrow> parseInt (ws @ sg @ pre @ hs @ rest) =
            read_number (if sg = ''-'' then - 1 else 1) (digits_value 16 hs)) \<and>
   (list_all is_white_space ws \<and> sg \<in> {[], ''+'', ''-''} \<and>
    (t = [] \<or> digit_of 10 (hd t) = None) \<and>
    (sg = [] \<longrightarrow> t = [] \<or> (\<not> is_white_space (hd t) \<and> hd t \<noteq> CHR ''+'' \<and> hd t \<noteq> CHR ''-''))
      \<longrightarrow> parseInt (ws @ sg @ t) = NaN) \<and>
   (list_all is_white_space ws \<and> sg \<in> {[], ''+'', ''-''} \<and> pre \<in> {''0x'', ''0X''} \<and>
    (rest = [] \<or> digit_of 16 (hd rest) = None)
      \<longrightarrow> parseInt (ws @ sg @ pre @ rest) = NaN) \<and>
   (0 \<le> v \<and> v \<le> 2 ^ 53 \<longrightarrow> read_number s v = Number (s * v))"
proof -
  have c1: "1 \<le> sz \<and> mset pat = mset [1..sz] \<and> map parseInt strs = map Number pat
      \<longrightarrow> validate_pattern sz strs = Valid (map Number pat) \<and> int (length pat) = sz"
    using validate_permutation[of pat sz strs] permutation_facts(3)[of pat sz] by simp
  have c2: "(\<exists>s\<in>set strs. parseInt s = NaN \<or> parseInt s = PosInfinity \<or> parseInt s = NegInfinity \<or>
                    (\<exists>n. parseInt s = Number n \<and> (n < 1 \<or> sz < n)))
      \<longrightarrow> validate_pattern sz strs = InvalidRange"
  proof
    assume "\<exists>s\<in>set strs. parseInt s = NaN \<or> parseInt s = PosInfinity \<or> parseInt s = NegInfinity \<or>
                    (\<exists>n. parseInt s = Number n \<and> (n < 1 \<or> sz < n))"
    hence "\<exists>s\<in>set strs. parseInt s = NaN \<or> out_of_range sz (parseInt s)"
      unfolding out_of_range_iff by blast
    thus "validate_pattern sz strs = InvalidRange" by (simp add: validate_pattern_cases)
  qed
  have c3: "(\<forall>s\<in>set strs. \<exists>n. parseInt s = Number n \<and> 1 \<le> n \<and> n \<le> sz) \<and>
    \<not> distinct (map parseInt strs)
      \<longrightarrow> validate_pattern sz strs = DuplicateValue"
    unfolding in_range_not_bad by (simp add: validate_pattern_cases)
  have c4: "map parseInt strs = map parseInt strs'
      \<longrightarrow> validate_pattern sz strs = validate_pattern sz strs'"
    by (simp add: validate_pattern_def)
  have c5: "list_all is_white_space ws \<and> sg \<in> {[], ''+'', ''-''} \<and>
    ds \<noteq> [] \<and> list_all (\<lambda>c. digit_of 10 c \<noteq> None) ds \<and>
    (rest = [] \<or> digit_of 10 (hd rest) = None) \<and> \<not> hex_prefix (ds @ rest)
      \<longrightarrow> parseInt (ws @ sg @ ds @ rest) =
            read_number (if sg = ''-'' then - 1 else 1) (digits_value 10 ds)"
    by (intro impI, elim conjE) (rule parseInt_decimal; assumption)
  have c6: "list_all is_white_space ws \<and> sg \<in> {[], ''+'', ''-''} \<and> pre \<in> {''0x'', ''0X''} \<and>
    hs \<noteq> [] \<and> list_all (\<lambda>c. digit_of 16 c \<noteq> None) hs \<and>
    (rest = [] \<or> digit_of 16 (hd rest) = None)
      \<longrightarrow> parseInt (ws @ sg @ pre @ hs @ rest) =
            read_number (if sg = ''-'' then - 1 else 1) (digits_value 16 hs)"
    by (intro impI, elim conjE) (rule parseInt_hex; assumption)
  have c7: "list_all is_white_space ws \<and> sg \<in> {[], ''+'', ''-''} \<and>
    (t = [] \<or> digit_of 10 (hd t) = None) \<and>
    (sg = [] \<longrightarrow> t = [] \<or> (\<not> is_white_space (hd t) \<and> hd t \<noteq> CHR ''+'' \<and> hd t \<noteq> CHR ''-''))
      \<longrightarrow> parseInt (ws @ sg @ t) = NaN"
    by (intro impI, elim conjE) (rule parseInt_no_digit; assumption)
  have c8: "list_all is_white_space ws \<and> sg \<in> {[], ''+'', ''-''} \<and> pre \<in> {''0x'', ''0X''} \<and>
    (rest = [] \<or> digit_of 16 (hd rest) = None)
      \<longrightarrow> parseInt (ws @ sg @ pre @ rest) = NaN"
    by (intro impI, elim conjE) (rule parseInt_hex_no_digit; assumption)
  have c9: "0 \<le> v \<and> v \<le> 2 ^ 53 \<longrightarrow> read_number s v = Number (s * v)"
    by (intro impI, elim conjE) (rule read_number_exact; assumption)
  show ?thesis
    by (intro conjI) (rule c1 c2 c3 c4 c5 c6 c7 c8 c9)+
qed

theorem validate_pattern_checks_witness:
  "(1::int) \<le> 3 \<and> mset [3, 1, 2] = mset [1..3] \<and>
   map parseInt [''3'', ''1'', ''2''] = map Number [3, 1, 2] \<and>
   validate_pattern 3 [''3'', ''1'', ''2''] = Valid (map Number [3, 1, 2]) \<and>
   parseInt ''x'' = NaN \<and> validate_pattern 3 [''3'', ''x'', ''2''] = InvalidRange \<and>
   parseInt ''4'' = Number 4 \<and> validate_pattern 3 [''3'', ''4'', ''2''] = InvalidRange \<and>
   parseInt ''1'' = Number 1 \<and> parseInt ''2'' = Number 2 \<and>
   \<not> distinct (map parseInt [''2'', ''1'', ''2'']) \<and>
   validate_pattern 3 [''2'', ''1'', ''2''] = DuplicateValue \<and>
   map parseInt [''1.5'', ''0x2''] = map parseInt [''1'', ''2''] \<and>
   validate_pattern 2 [''1.5'', ''0x2''] = validate_pattern 2 [''1'', ''2''] \<and>
   list_all is_white_space '' '' \<and> ''12'' \<noteq> [] \<and>
   list_all (\<lambda>c. digit_of 10 c \<noteq> None) ''12'' \<and> digit_of 10 (hd ''px'') = None \<and>
   \<not> hex_prefix (''12'' @ ''px'') \<and> digits_value 10 ''12'' = 12 \<and>
   parseInt ('' '' @ ''-'' @ ''12'' @ ''px'') = Number (- 12) \<and>
   list_all (\<lambda>c. digit_of 16 c \<noteq> None) ''1f'' \<and> digit_of 16 (hd ''g'') = None \<and>
   digits_value 16 ''1f'' = 31 \<and>
   parseInt ([] @ [] @ ''0x'' @ ''1f'' @ ''g'') = Number 31 \<and>
   digit_of 10 (hd ''.5'') = None \<and> parseInt ([] @ ''+'' @ ''.5'') = NaN \<and>
   parseInt ([] @ [] @ ''0X'' @ ''g'') = NaN \<and>
   (0::int) \<le> 12 \<and> (12::int) \<le> 2 ^ 53 \<and> read_number (- 1) 12 = Number (- 12)"
proof -
  have up: "[1..3] = [1, 2, 3::int]" by (simp add: upto.simps)
  have p: "parseInt ''1'' = Number 1" "parseInt ''2'' = Number 2" "parseInt ''3'' = Number 3"
    "parseInt ''4'' = Number 4" "parseInt ''x'' = NaN" "parseInt ''1.5'' = Number 1"
    "parseInt ''0x2'' = Number 2"
    by code_simp+
  have h1: "(1::int) \<le> 3 \<and> mset [3, 1, 2] = mset [1..3] \<and>
            map parseInt [''3'', ''1'', ''2''] = map Number [3, 1, 2]"
    unfolding up using p by simp
  have c1: "validate_pattern 3 [''3'', ''1'', ''2''] = Valid (map Number [3, 1, 2])"
    using validate_pattern_checks[of 3 "[3, 1, 2]" "[''3'', ''1'', ''2'']"] h1 by blast
  have c2: "validate_pattern 3 [''3'', ''x'', ''2''] = InvalidRange"
    using validate_pattern_checks[of 3 _ "[''3'', ''x'', ''2'']"] p by simp
  have c3: "validate_pattern 3 [''3'', ''4'', ''2''] = InvalidRange"
    using validate_pattern_checks[of 3 _ "[''3'', ''4'', ''2'']"] p by simp
  have d: "\<not> distinct (map parseInt [''2'', ''1'', ''2''])" using p by simp
  have c4: "validate_pattern 3 [''2'', ''1'', ''2''] = DuplicateValue"
    using validate_pattern_checks[of 3 _ "[''2'', ''1'', ''2'']"] p by simp
  have e: "map parseInt [''1.5'', ''0x2''] = map parseInt [''1'', ''2'']" using p by simp
  have c5: "validate_pattern 2 [''1.5'', ''0x2''] = validate_pattern 2 [''1'', ''2'']"
    using validate_pattern_checks[of 2 _ "[''1.5'', ''0x2'']" "[''1'', ''2'']"] e by blast
  have w: "list_all is_white_space '' ''" "list_all is_white_space []"
    "[] \<in> {[], ''+'', ''-''}" "''+'' \<in> {[], ''+'', ''-''}" "''-'' \<in> {[], ''+'', ''-''}"
    "''0x'' \<in> {''0x'', ''0X''}" "''0X'' \<in> {''0x'', ''0X''}"
    by (simp_all add: is_white_space_def)
  have g: "list_all (\<lambda>c. digit_of 10 c \<noteq> None) ''12''" "digit_of 10 (hd ''px'') = None"
    "\<not> hex_prefix (''12'' @ ''px'')" "digits_value 10 ''12'' = 12"
    "list_all (\<lambda>c. digit_of 16 c \<noteq> None) ''1f''" "digit_of 16 (hd ''g'') = None"
    "digits_value 16 ''1f'' = 31" "digit_of 10 (hd ''.5'') = None"
    by code_simp+
  have x: "(0::int) \<le> 12 \<and> (12::int) \<le> 2 ^ 53" by simp
  have r4: "read_number (- 1) 12 = Number (- 12)"
    using validate_pattern_checks[where v = 12 and s = "- 1"] x by simp
  have "parseInt ('' '' @ ''-'' @ ''12'' @ ''px'') = read_number (- 1) (digits_value 10 ''12'')"
    using validate_pattern_checks[where ws = "'' ''" and sg = "''-''" and ds = "''12''" and rest = "''px''"]
      w g by simp
  hence r1: "parseInt ('' '' @ ''-'' @ ''12'' @ ''px'') = Number (- 12)" using g(4) r4 by simp
  have r31: "read_number 1 31 = Number 31"
    using validate_pattern_checks[where v = 31 and s = 1] by simp
  have "parseInt ([] @ [] @ ''0x'' @ ''1f'' @ ''g'') = read_number 1 (digits_value 16 ''1f'')"
    using validate_pattern_checks[where ws = "[]" and sg = "[]" and pre = "''0x''" and hs = "''1f''"
        and rest = "''g''"] w g by simp
  hence r2: "parseInt ([] @ [] @ ''0x'' @ ''1f'' @ ''g'') = Number 31" using g(7) r31 by simp
  have r3: "parseInt ([] @ ''+'' @ ''.5'') = NaN"
    using validate_pattern_checks[where ws = "[]" and sg = "''+''" and t = "''.5''"] w g by simp
  have r3': "parseInt ([] @ [] @ ''0X'' @ ''g'') = NaN"
    using validate_pattern_checks[where ws = "[]" and sg = "[]" and pre = "''0X''" and rest = "''g''"]
      w g by simp
  show ?thesis
    by (intro conjI) (use h1 c1 c2 c3 c4 c5 d e p w g x r1 r2 r3 r3' r4 in \<open>simp_all\<close>)
qed

text \<open>
  Claim C3 as stated fails on an entry that is not an integer: \<open>1.5\<close> is read as 1, and
  the pattern \<open>1.5, 2\<close> of size 2 is accepted as \<open>[1, 2]\<close>.
\<close>

theorem validate_pattern_coercion_counterexample:
  "parseInt ''1.5'' = Number 1 \<and> validate_pattern 2 [''1.5'', ''2''] = Valid [Number 1, Number 2]"
  by code_simp

text \<open>
  Claim C4, as the program has it. There is no check of the length and no error for it.
  With a name that is not blank, a pattern whose entries are read as distinct numbers
  within \<open>[1, size]\<close> is submitted whatever its length; a submitted pattern has as many
  entries as the form had, at most \<open>size\<close>; and a pattern with more than \<open>size\<close> entries is
  always rejected, with \<open>InvalidRange\<close> or \<open>DuplicateValue\<close>.
\<close>

theorem handleCreateSection_no_length_check:
  assumes "\<not> list_all is_white_space name"
  shows "((\<forall>s\<in>set strs. \<exists>n. parseInt s = Number n \<and> 1 \<le> n \<and> n \<le> sz) \<and>
          distinct (map parseInt strs)
            \<longrightarrow> handleCreateSection name sz strs = Submitted name sz (map parseInt strs)) \<and>
         (handleCreateSection name sz strs = Submitted name sz pat
            \<longrightarrow> length pat = length strs \<and> length strs \<le> nat sz) \<and>
         (nat sz < length strs
            \<longrightarrow> handleCreateSection name sz strs = Rejected InvalidRange \<or>
                handleCreateSection name sz strs = Rejected DuplicateValue)"
proof -
  let ?bad = "\<exists>s\<in>set strs. parseInt s = NaN \<or> out_of_range sz (parseInt s)"
  have h: "handleCreateSection name sz strs =
             (if ?bad then Rejected InvalidRange
              else if \<not> distinct (map parseInt strs) then Rejected DuplicateValue
              else Submitted name sz (map parseInt strs))"
    using assms by (simp add: handleCreateSection_def validate_pattern_cases)
  have c1: "(\<forall>s\<in>set strs. \<exists>n. parseInt s = Number n \<and> 1 \<le> n \<and> n \<le> sz) \<and>
          distinct (map parseInt strs)
            \<longrightarrow> handleCreateSection name sz strs = Submitted name sz (map parseInt strs)"
    unfolding in_range_not_bad using h by simp
  have c2: "handleCreateSection name sz strs = Submitted name sz pat
            \<longrightarrow> length pat = length strs \<and> length strs \<le> nat sz"
  proof
    assume s: "handleCreateSection name sz strs = Submitted name sz pat"
    have nb: "\<not> ?bad" and d: "distinct (map parseInt strs)" and p: "pat = map parseInt strs"
      using s h by (auto split: if_splits)
    from in_range_length[OF nb[folded in_range_not_bad] d] p
    show "length pat = length strs \<and> length strs \<le> nat sz" by simp
  qed
  have c3: "nat sz < length strs
            \<longrightarrow> handleCreateSection name sz strs = Rejected InvalidRange \<or>
                handleCreateSection name sz strs = Rejected DuplicateValue"
  proof (intro impI, rule ccontr)
    assume l: "nat sz < length strs"
    assume n: "\<not> (handleCreateSection name sz strs = Rejected InvalidRange \<or>
                handleCreateSection name sz strs = Rejected DuplicateValue)"
    hence nb: "\<not> ?bad" and d: "distinct (map parseInt strs)" using h by (auto split: if_splits)
    from in_range_length[OF nb[folded in_range_not_bad] d] l show False by simp
  qed
  show ?thesis by (intro conjI) (rule c1 c2 c3)+
qed

theorem handleCreateSection_no_length_check_witness:
  "\<not> list_all is_white_space ''weave'' \<and>
   parseInt ''1'' = Number 1 \<and> parseInt ''2'' = Number 2 \<and> distinct (map parseInt [''1'', ''2'']) \<and>
   handleCreateSection ''weave'' 3 [''1'', ''2''] = Submitted ''weave'' 3 [Number 1, Number 2] \<and>
   length [Number 1, Number 2] = length [''1'', ''2''] \<and> length [''1'', ''2''] \<le> nat 3 \<and>
   nat 2 < length [''1'', ''2'', ''2''] \<and>
   (handleCreateSection ''weave'' 2 [''1'', ''2'', ''2''] = Rejected InvalidRange \<or>
    handleCreateSection ''weave'' 2 [''1'', ''2'', ''2''] = Rejected DuplicateValue)"
proof -
  have n: "\<not> list_all is_white_space ''weave''" by code_simp
  have p: "parseInt ''1'' = Number 1" "parseInt ''2'' = Number 2" by code_simp+
  have d: "distinct (map parseInt [''1'', ''2''])" using p by simp
  have r: "\<forall>s\<in>set [''1'', ''2'']. \<exists>n. parseInt s = Number n \<and> 1 \<le> n \<and> n \<le> 3" using p by simp
  note t = handleCreateSection_no_length_check[OF n, of "[''1'', ''2'']" 3 "[Number 1, Number 2]"]
  have s: "handleCreateSection ''weave'' 3 [''1'', ''2''] = Submitted ''weave'' 3 [Number 1, Number 2]"
    using t r d p by simp
  have l: "length [Number 1, Number 2] = length [''1'', ''2''] \<and> length [''1'', ''2''] \<le> nat 3"
    using t s by blast
  have g: "nat 2 < length [''1'', ''2'', ''2'']" by simp
  have "handleCreateSection ''weave'' 2 [''1'', ''2'', ''2''] = Rejected InvalidRange \<or>
        handleCreateSection ''weave'' 2 [''1'', ''2'', ''2''] = Rejected DuplicateValue"
    using handleCreateSection_no_length_check[OF n, of "[''1'', ''2'', ''2'']" 2] g by blast
  thus ?thesis using n p d s l g by blast
qed

text \<open>
  Claim C4 as stated fails on a pattern shorter than the size: two entries \<open>1, 2\<close> with
  size 3 are submitted.
\<close>

theorem handleCreateSection_length_counterexample:
  "handleCreateSection ''weave'' 3 [''1'', ''2''] = Submitted ''weave'' 3 [Number 1, Number 2] \<and>
   int (length [''1'', ''2'']) \<noteq> 3"
  by code_simp

end
